theory Spec2Isabelle
  imports Main "HOL-Library.Char_ord" "HOL-Library.List_Lexorder"
begin

section \<open>The host editor, as far as the module reads and writes it\<close>

text \<open>
  The module \<^verbatim>\<open>JamLicenseTrackerEditorModule.cpp\<close> works on objects of the host editor.

  Modelled from the spec: the host's objects, packages, metadata stores and weak pointers
  are not part of the module's source. An object lives in an outermost package, a package
  may own a metadata store, and the store maps an object and a key to a string; a lookup
  that finds nothing yields the empty string, which the specification treats as "no URL".
\<close>

type_synonym FString = string
type_synonym FName = string
type_synonym object_id = nat
type_synonym package_id = nat

definition MD_AssetSourceURL :: FName where
  "MD_AssetSourceURL = ''AssetSourceURL''"

text \<open>
  The host's string type \<^verbatim>\<open>FString\<close> is a list of characters. Its operators
  \<^verbatim>\<open>==\<close>, \<^verbatim>\<open>!=\<close> and \<^verbatim>\<open><\<close> are host code: they compare two strings ignoring
  case, character by character after the letters \<open>A\<close> to \<open>Z\<close> have been turned into
  \<open>a\<close> to \<open>z\<close>, and the order is the lexicographic order of the character codes of
  the strings so converted. \<^verbatim>\<open>IsEmpty()\<close> is the test for the empty list.
\<close>

definition ToLower :: "char \<Rightarrow> char" where
  \<comment> \<open>an upper case letter gets the bit of value 32 set\<close>
  "ToLower c =
     (if CHR ''A'' \<le> c \<and> c \<le> CHR ''Z''
      then (case c of Char b0 b1 b2 b3 b4 b5 b6 b7 \<Rightarrow> Char b0 b1 b2 b3 b4 True b6 b7)
      else c)"

definition Lower :: "FString \<Rightarrow> FString" where
  "Lower A = map ToLower A"

definition FStringEq :: "FString \<Rightarrow> FString \<Rightarrow> bool" where
  \<comment> \<open>\<^verbatim>\<open>A == B\<close>\<close>
  "FStringEq A B = (Lower A = Lower B)"

definition FStringNe :: "FString \<Rightarrow> FString \<Rightarrow> bool" where
  \<comment> \<open>\<^verbatim>\<open>A != B\<close>\<close>
  "FStringNe A B = (\<not> FStringEq A B)"

definition FStringLess :: "FString \<Rightarrow> FString \<Rightarrow> bool" where
  \<comment> \<open>\<^verbatim>\<open>A < B\<close>\<close>
  "FStringLess A B = (Lower A < Lower B)"

text \<open>The dynamic class of an object: a license asset carries its \<^verbatim>\<open>AssetSourceURL\<close>.\<close>

datatype UObject = UJamAssetLicense FString | UOtherObject

text \<open>\<^verbatim>\<open>UMetaData\<close>: per object, a map from keys to values.\<close>

type_synonym UMetaData = "object_id \<Rightarrow> FName \<rightharpoonup> FString"

text \<open>
  \<open>Objects\<close> holds the objects that are alive (a weak pointer to any other object is
  stale), \<open>Outermost\<close> the result of \<^verbatim>\<open>GetOutermost()\<close> (\<open>None\<close> for the null pointer the
  module tests for), \<open>PackageMetaData\<close> the metadata store of a package (\<open>None\<close> when
  \<^verbatim>\<open>HasMetaData()\<close> is false), \<open>Dirty\<close> the packages marked by \<^verbatim>\<open>Modify()\<close>.
\<close>

record editor =
  Objects :: "object_id \<rightharpoonup> UObject"
  Outermost :: "object_id \<rightharpoonup> package_id"
  PackageMetaData :: "package_id \<rightharpoonup> UMetaData"
  Dirty :: "package_id set"

definition GetValue :: "UMetaData \<Rightarrow> object_id \<Rightarrow> FName \<Rightarrow> FString" where
  \<comment> \<open>the empty string when the object has no value under the key\<close>
  "GetValue Metadata Obj Key = (case Metadata Obj Key of None \<Rightarrow> [] | Some v \<Rightarrow> v)"

definition SetValue :: "UMetaData \<Rightarrow> object_id \<Rightarrow> FName \<Rightarrow> FString \<Rightarrow> UMetaData" where
  "SetValue Metadata Obj Key v = Metadata(Obj := (Metadata Obj)(Key \<mapsto> v))"

definition RemoveValue :: "UMetaData \<Rightarrow> object_id \<Rightarrow> FName \<Rightarrow> UMetaData" where
  "RemoveValue Metadata Obj Key = Metadata(Obj := (Metadata Obj)(Key := None))"

definition HasMetaData :: "editor \<Rightarrow> package_id \<Rightarrow> bool" where
  "HasMetaData h Package = (PackageMetaData h Package \<noteq> None)"

text \<open>
  Modelled from the spec: \<^verbatim>\<open>UPackage::GetMetaData()\<close> is host code. It hands out the
  package's metadata store and creates an empty one when the package has none yet, so that
  setting an annotation "cannot fail from this component's perspective".
\<close>

definition GetMetaData :: "editor \<Rightarrow> package_id \<Rightarrow> editor \<times> UMetaData option" where
  "GetMetaData h Package =
     (case PackageMetaData h Package of
        Some Metadata \<Rightarrow> (h, Some Metadata)
      | None \<Rightarrow> (h\<lparr>PackageMetaData := (PackageMetaData h)(Package \<mapsto> (\<lambda>_. Map.empty))\<rparr>,
                 Some (\<lambda>_. Map.empty)))"

definition Modify :: "editor \<Rightarrow> package_id \<Rightarrow> editor" where
  "Modify h Package = h\<lparr>Dirty := insert Package (Dirty h)\<rparr>"

definition WeakGet :: "editor \<Rightarrow> object_id \<Rightarrow> object_id option" where
  \<comment> \<open>\<^verbatim>\<open>TWeakObjectPtr::Get()\<close>: null once the object is gone\<close>
  "WeakGet h WeakPtr = (case Objects h WeakPtr of None \<Rightarrow> None | Some _ \<Rightarrow> Some WeakPtr)"

definition CastJamAssetLicense :: "editor \<Rightarrow> object_id option \<Rightarrow> FString option" where
  \<comment> \<open>\<^verbatim>\<open>Cast<UJamAssetLicense>\<close>; the result is the license's \<^verbatim>\<open>AssetSourceURL\<close> field\<close>
  "CastJamAssetLicense h Ptr =
     (case Ptr of
        None \<Rightarrow> None
      | Some Obj \<Rightarrow> (case Objects h Obj of Some (UJamAssetLicense url) \<Rightarrow> Some url | _ \<Rightarrow> None))"

text \<open>
  The read path of both queries:
  \<^verbatim>\<open>Package->HasMetaData() ? Package->GetMetaData() : nullptr\<close>.
\<close>

definition FindMetaData :: "editor \<Rightarrow> package_id \<Rightarrow> UMetaData option" where
  "FindMetaData h Package = (if HasMetaData h Package then snd (GetMetaData h Package) else None)"

section \<open>AddAssetSourceOptions: the shared source URL of a selection\<close>

record license_scan =
  bAnyHaveLicense :: bool
  bAnyMissingLicense :: bool
  SharedLicenseAssetID :: FString

text \<open>One round of the loop over the selected objects (lines 96 to 130).\<close>

definition scan_object :: "editor \<Rightarrow> license_scan \<Rightarrow> object_id \<Rightarrow> license_scan" where
  "scan_object h s Obj =
     (case Outermost h Obj of
        None \<Rightarrow> s
      | Some Package \<Rightarrow>
          (case FindMetaData h Package of
             Some Metadata \<Rightarrow>
               (let LicenseAssetID = GetValue Metadata Obj MD_AssetSourceURL in
                if LicenseAssetID = [] then
                  s\<lparr>bAnyMissingLicense := True, SharedLicenseAssetID := []\<rparr>
                else
                  s\<lparr>SharedLicenseAssetID :=
                       (if \<not> bAnyHaveLicense s \<and> \<not> bAnyMissingLicense s then LicenseAssetID
                        else if FStringNe LicenseAssetID (SharedLicenseAssetID s) then []
                        else SharedLicenseAssetID s),
                    bAnyHaveLicense := True\<rparr>)
           | None \<Rightarrow> s\<lparr>bAnyMissingLicense := True\<rparr>))"

definition ScanSelection :: "editor \<Rightarrow> object_id list \<Rightarrow> license_scan" where
  "ScanSelection h SelectedObjects =
     foldl (scan_object h)
       \<lparr>bAnyHaveLicense = False, bAnyMissingLicense = False, SharedLicenseAssetID = []\<rparr>
       SelectedObjects"

text \<open>
  The shared URL as the specification names it: present when \<^verbatim>\<open>SharedLicenseAssetID\<close>
  is not empty after the loop (the test of line 132).
\<close>

definition SharedValue :: "editor \<Rightarrow> object_id list \<Rightarrow> FString option" where
  "SharedValue h SelectedObjects =
     (let s = ScanSelection h SelectedObjects in
      if SharedLicenseAssetID s \<noteq> [] then Some (SharedLicenseAssetID s) else None)"

text \<open>The text the edit field starts with (lines 161 to 165).\<close>

definition StartingValue :: "editor \<Rightarrow> object_id list \<Rightarrow> FString" where
  "StartingValue h SelectedObjects =
     (let s = ScanSelection h SelectedObjects in
      if bAnyHaveLicense s \<and> SharedLicenseAssetID s = [] then ''[multiple values]''
      else SharedLicenseAssetID s)"

datatype menu_entry =
    OpenLicenseURL FString
  | ViewLicensesSubMenu
  | LicenseURLWidget FString
  | OpenSingleLicenseURL FString nat
  | AssetsWithNoLicense nat

definition AddAssetSourceOptions :: "editor \<Rightarrow> object_id list \<Rightarrow> menu_entry list" where
  "AddAssetSourceOptions h SelectedObjects =
     (let s = ScanSelection h SelectedObjects in
      (if SharedLicenseAssetID s \<noteq> [] then [OpenLicenseURL (SharedLicenseAssetID s)]
       else if bAnyHaveLicense s then [ViewLicensesSubMenu]
       else [])
      @ [LicenseURLWidget (StartingValue h SelectedObjects)])"

text \<open>
  The stored source URL of an object, as the specification speaks of it: the value under
  \<^verbatim>\<open>AssetSourceURL\<close> in the metadata store of the object's package, when there is a
  package, a store and a value that is not empty.
\<close>

definition stored_url :: "editor \<Rightarrow> object_id \<Rightarrow> FString option" where
  "stored_url h Obj =
     (case Outermost h Obj of
        None \<Rightarrow> None
      | Some Package \<Rightarrow>
          (case PackageMetaData h Package of
             None \<Rightarrow> None
           | Some Metadata \<Rightarrow>
               (if GetValue Metadata Obj MD_AssetSourceURL = [] then None
                else Some (GetValue Metadata Obj MD_AssetSourceURL))))"

definition has_package :: "editor \<Rightarrow> object_id \<Rightarrow> bool" where
  "has_package h Obj = (Outermost h Obj \<noteq> None)"

definition has_metadata :: "editor \<Rightarrow> object_id \<Rightarrow> bool" where
  \<comment> \<open>the object's package owns a metadata store\<close>
  "has_metadata h Obj =
     (case Outermost h Obj of None \<Rightarrow> False | Some Package \<Rightarrow> HasMetaData h Package)"

text \<open>
  The value of \<^verbatim>\<open>SharedLicenseAssetID\<close> after the loop in closed form, over the selected
  objects that have a package: the URL of the first of them, when every other one either
  carries a URL equal to it ignoring case or has no metadata store. It is used in the
  proofs only.
\<close>

definition shared_of :: "editor \<Rightarrow> object_id list \<Rightarrow> FString" where
  "shared_of h ps =
     (case ps of
        [] \<Rightarrow> []
      | p # _ \<Rightarrow>
          (case stored_url h p of
             None \<Rightarrow> []
           | Some u \<Rightarrow>
               if \<forall>a \<in> set ps. (case stored_url h a of
                                     Some v \<Rightarrow> FStringEq v u
                                   | None \<Rightarrow> \<not> has_metadata h a)
               then u else []))"

section \<open>SetLicenseURLAction: writing the source URL\<close>

datatype ETextCommit = Default | OnEnter | OnUserMovedFocus | OnCleared

text \<open>One round of the loop over the weak pointers (lines 175 to 195).\<close>

definition set_source_url :: "FString \<Rightarrow> editor \<Rightarrow> object_id \<Rightarrow> editor" where
  "set_source_url EndingValue h WeakPtr =
     (case WeakGet h WeakPtr of
        None \<Rightarrow> h
      | Some Asset \<Rightarrow>
          (case Outermost h Asset of
             None \<Rightarrow> h
           | Some Package \<Rightarrow>
               (case GetMetaData (Modify h Package) Package of
                  (h', None) \<Rightarrow> h'
                | (h', Some Metadata) \<Rightarrow>
                    h'\<lparr>PackageMetaData := (PackageMetaData h')(Package \<mapsto>
                         (if EndingValue = [] then RemoveValue Metadata Asset MD_AssetSourceURL
                          else SetValue Metadata Asset MD_AssetSourceURL EndingValue))\<rparr>)))"

definition SetAnnotation :: "editor \<Rightarrow> object_id list \<Rightarrow> FString \<Rightarrow> editor" where
  "SetAnnotation h WeakObjects EndingValue = foldl (set_source_url EndingValue) h WeakObjects"

text \<open>The lambda of lines 167 to 197, with the starting value it captured.\<close>

definition SetLicenseURLAction ::
  "editor \<Rightarrow> object_id list \<Rightarrow> FString \<Rightarrow> FString \<Rightarrow> ETextCommit \<Rightarrow> editor" where
  "SetLicenseURLAction h WeakObjects Starting Val TextCommitType =
     (let EndingValue = Val in
      if TextCommitType \<noteq> OnCleared \<and> FStringNe EndingValue Starting
      then SetAnnotation h WeakObjects EndingValue
      else h)"

text \<open>The annotation of an object: what is stored under the key, whatever it is.\<close>

definition annotation :: "editor \<Rightarrow> object_id \<Rightarrow> FString option" where
  "annotation h Obj =
     (case Outermost h Obj of
        None \<Rightarrow> None
      | Some Package \<Rightarrow>
          (case PackageMetaData h Package of
             None \<Rightarrow> None
           | Some Metadata \<Rightarrow> Metadata Obj MD_AssetSourceURL))"

section \<open>CreateLicenseListSubmenu: tally and ranked list\<close>

text \<open>
  \<^verbatim>\<open>TMap<FString, int32>\<close> as an association list in insertion order. The host's map
  finds a key by \<^verbatim>\<open>FString\<close>'s equality, which ignores case, and keeps the key it was
  given first. The counts are natural numbers: a \<^verbatim>\<open>TArray\<close> holds fewer than
  \<open>2 ^ 31\<close> elements, so no count of selected objects leaves the range of \<^verbatim>\<open>int32\<close>.
\<close>

type_synonym URLUsage = "(FString \<times> nat) list"

definition FindOrAdd :: "URLUsage \<Rightarrow> FString \<Rightarrow> URLUsage" where
  \<comment> \<open>a new key starts with the default value 0\<close>
  "FindOrAdd m k = (if \<exists>(k', c) \<in> set m. FStringEq k' k then m else m @ [(k, 0)])"

definition AddOne :: "URLUsage \<Rightarrow> FString \<Rightarrow> URLUsage" where
  \<comment> \<open>\<^verbatim>\<open>URLUsageMap.FindOrAdd(k) += 1\<close>\<close>
  "AddOne m k = map (\<lambda>(k', c). if FStringEq k' k then (k', c + 1) else (k', c)) (FindOrAdd m k)"

record usage_summary =
  URLUsageMap :: URLUsage
  NumAssetsWithNoURL :: nat

text \<open>One round of the loop over the selected objects (lines 325 to 346).\<close>

definition tally_object :: "editor \<Rightarrow> usage_summary \<Rightarrow> object_id \<Rightarrow> usage_summary" where
  "tally_object h t Asset =
     (case Outermost h Asset of
        None \<Rightarrow> t
      | Some Package \<Rightarrow>
          (case FindMetaData h Package of
             Some Metadata \<Rightarrow>
               (let LicenseAssetID = GetValue Metadata Asset MD_AssetSourceURL in
                if LicenseAssetID \<noteq> [] then
                  t\<lparr>URLUsageMap := AddOne (URLUsageMap t) LicenseAssetID\<rparr>
                else t\<lparr>NumAssetsWithNoURL := NumAssetsWithNoURL t + 1\<rparr>)
           | None \<Rightarrow> t\<lparr>NumAssetsWithNoURL := NumAssetsWithNoURL t + 1\<rparr>))"

definition Summarize :: "editor \<Rightarrow> object_id list \<Rightarrow> usage_summary" where
  "Summarize h SelectedObjects =
     foldl (tally_object h) \<lparr>URLUsageMap = [], NumAssetsWithNoURL = 0\<rparr> SelectedObjects"

definition usage :: "URLUsage \<Rightarrow> FString \<Rightarrow> nat" where
  \<comment> \<open>\<^verbatim>\<open>URLUsageMap[k]\<close>, only ever applied to a key of the map\<close>
  "usage m k = (case find (\<lambda>(k', c). FStringEq k' k) m of Some (k', c) \<Rightarrow> c | None \<Rightarrow> 0)"

text \<open>The predicate handed to \<^verbatim>\<open>Sort\<close> (lines 352 to 365).\<close>

definition usage_before :: "URLUsage \<Rightarrow> FString \<Rightarrow> FString \<Rightarrow> bool" where
  "usage_before m A B =
     (let CountA = usage m A; CountB = usage m B in
      if CountA = CountB then FStringLess A B else CountA > CountB)"

text \<open>
  \<^verbatim>\<open>TArray::Sort\<close> is host code; it is modelled by insertion sort under the given
  predicate. The theorems below show that the outcome does not depend on this choice.
\<close>

fun insert_by :: "('a \<Rightarrow> 'a \<Rightarrow> bool) \<Rightarrow> 'a \<Rightarrow> 'a list \<Rightarrow> 'a list" where
  "insert_by pred x [] = [x]"
| "insert_by pred x (y # ys) =
     (if pred x y then x # y # ys else y # insert_by pred x ys)"

fun Sort :: "('a \<Rightarrow> 'a \<Rightarrow> bool) \<Rightarrow> 'a list \<Rightarrow> 'a list" where
  "Sort pred [] = []"
| "Sort pred (x # xs) = insert_by pred x (Sort pred xs)"

definition GenerateKeyArray :: "URLUsage \<Rightarrow> FString list" where
  "GenerateKeyArray m = map fst m"

definition UniqueURLs :: "URLUsage \<Rightarrow> FString list" where
  "UniqueURLs m = Sort (usage_before m) (GenerateKeyArray m)"

text \<open>The ranked list: each URL in display order with the count shown in its tooltip.\<close>

definition RankedList :: "URLUsage \<Rightarrow> (FString \<times> nat) list" where
  "RankedList m = map (\<lambda>URL. (URL, usage m URL)) (UniqueURLs m)"

text \<open>
  The whole submenu; \<open>None\<close> is the menu without a content browser context, for which
  the loop does not run.
\<close>

definition CreateLicenseListSubmenu :: "editor \<Rightarrow> object_id list option \<Rightarrow> menu_entry list" where
  "CreateLicenseListSubmenu h Context =
     (let t = (case Context of
                 None \<Rightarrow> \<lparr>URLUsageMap = [], NumAssetsWithNoURL = 0\<rparr>
               | Some SelectedObjects \<Rightarrow> Summarize h SelectedObjects) in
      map (\<lambda>(URL, n). OpenSingleLicenseURL URL n) (RankedList (URLUsageMap t))
      @ (if NumAssetsWithNoURL t > 0 then [AssetsWithNoLicense (NumAssetsWithNoURL t)] else []))"

section \<open>AddJamAssetLicenseOptions: the actions on license assets\<close>

text \<open>
  \<^verbatim>\<open>TSet<FString>\<close> as a list in insertion order. The host's set finds an element by
  \<^verbatim>\<open>FString\<close>'s equality, which ignores case; adding a string that is already there
  puts the new string in the place of the old one.
\<close>

definition TSet_Add :: "FString list \<Rightarrow> FString \<Rightarrow> FString list" where
  "TSet_Add s x =
     (if \<exists>y \<in> set s. FStringEq y x then map (\<lambda>y. if FStringEq y x then x else y) s
      else s @ [x])"

definition TSet_Contains :: "FString list \<Rightarrow> FString \<Rightarrow> bool" where
  "TSet_Contains s x = (\<exists>y \<in> set s. FStringEq y x)"

definition collect_url :: "editor \<Rightarrow> FString list \<Rightarrow> object_id \<Rightarrow> FString list" where
  "collect_url h AssetSourceURLs WeakPtr =
     (case CastJamAssetLicense h (WeakGet h WeakPtr) of
        Some url \<Rightarrow> (if url \<noteq> [] then TSet_Add AssetSourceURLs url else AssetSourceURLs)
      | None \<Rightarrow> AssetSourceURLs)"

definition CollectAssetSourceURLs :: "editor \<Rightarrow> object_id list \<Rightarrow> FString list" where
  "CollectAssetSourceURLs h WeakObjects = foldl (collect_url h) [] WeakObjects"

text \<open>
  \<^verbatim>\<open>ViewAssetSourceAction\<close> (lines 269 to 287): the result is the sequence of calls
  of \<^verbatim>\<open>LaunchURL\<close>, one per element of the set.
\<close>

definition ViewAssetSourceAction :: "editor \<Rightarrow> object_id list \<Rightarrow> FString list" where
  "ViewAssetSourceAction h WeakObjects = CollectAssetSourceURLs h WeakObjects"

text \<open>
  Modelled from the spec: the asset registry is host code. An entry of the registry carries
  the tags of one asset; \<^verbatim>\<open>GetAssetsByTags\<close> answers with the entries that carry one of
  the given tags ("a registry query restricted to assets carrying the same tag key"), and
  \<^verbatim>\<open>GetTagValue\<close> hands out the value of a tag when the entry has it.
\<close>

record FAssetData =
  ObjectPath :: string
  TagsAndValues :: "FName \<rightharpoonup> FString"

definition GetAssetsByTags :: "FAssetData list \<Rightarrow> FName list \<Rightarrow> FAssetData list" where
  "GetAssetsByTags AssetRegistry Tags =
     filter (\<lambda>AssetData. \<exists>t \<in> set Tags. TagsAndValues AssetData t \<noteq> None) AssetRegistry"

definition GetTagValue :: "FAssetData \<Rightarrow> FName \<Rightarrow> FString option" where
  "GetTagValue AssetData Tag = TagsAndValues AssetData Tag"

text \<open>Lines 231 to 249: the assets of the registry whose tag value is in the set.\<close>

definition FindAssetsBySharedURL :: "FAssetData list \<Rightarrow> FString list \<Rightarrow> FAssetData list" where
  "FindAssetsBySharedURL AssetRegistry AssetSourceURLs =
     (let PotentialAssetList = GetAssetsByTags AssetRegistry [MD_AssetSourceURL] in
      filter (\<lambda>AssetData.
                case GetTagValue AssetData MD_AssetSourceURL of
                  Some TestURL \<Rightarrow> TSet_Contains AssetSourceURLs TestURL
                | None \<Rightarrow> False)
             PotentialAssetList)"

text \<open>
  \<^verbatim>\<open>SelectRelatedAssetsAction\<close> (lines 217 to 256): the content browser is synchronised
  to the matching assets when there is one, and left alone otherwise.
\<close>

definition SelectRelatedAssetsAction ::
  "editor \<Rightarrow> object_id list \<Rightarrow> FAssetData list \<Rightarrow> FAssetData list option" where
  "SelectRelatedAssetsAction h WeakObjects AssetRegistry =
     (let MatchingAssetList =
            FindAssetsBySharedURL AssetRegistry (CollectAssetSourceURLs h WeakObjects) in
      if length MatchingAssetList > 0 then Some MatchingAssetList else None)"

section \<open>A sample editor state\<close>

text \<open>
  Objects 1 and 5 live in package 10 and carry the URL \<open>http://x\<close>, object 2 lives in
  package 20 and carries \<open>http://y\<close>, object 6 lives in package 20 and carries no URL,
  object 3 lives in package 30, which has no metadata store, and object 4 has no outermost
  package. Objects 7 and 8 are license assets for \<open>http://x\<close>, object 9 is a license
  asset for \<open>http://y\<close>, object 11 is a license asset with an empty URL; object 12 is
  gone. Objects 13, 14 and 15 live in package 50 and carry \<open>HTTP://X\<close>,
  \<open>http://b\<close> and \<open>http://B\<close>; object 16 is a license asset for \<open>HTTP://X\<close>.
\<close>

definition demo_metadata :: UMetaData where
  "demo_metadata =
     (\<lambda>_. Map.empty)
       (1 := [MD_AssetSourceURL \<mapsto> ''http://x''],
        5 := [MD_AssetSourceURL \<mapsto> ''http://x''],
        2 := [MD_AssetSourceURL \<mapsto> ''http://y''],
        13 := [MD_AssetSourceURL \<mapsto> ''HTTP://X''],
        14 := [MD_AssetSourceURL \<mapsto> ''http://b''],
        15 := [MD_AssetSourceURL \<mapsto> ''http://B''])"

definition demo_editor :: editor where
  "demo_editor =
     \<lparr>Objects = map_of
        [(1, UOtherObject), (2, UOtherObject), (3, UOtherObject), (4, UOtherObject),
         (5, UOtherObject), (6, UOtherObject), (7, UJamAssetLicense ''http://x''),
         (8, UJamAssetLicense ''http://x''), (9, UJamAssetLicense ''http://y''),
         (11, UJamAssetLicense []), (13, UOtherObject), (14, UOtherObject),
         (15, UOtherObject), (16, UJamAssetLicense ''HTTP://X'')],
      Outermost = map_of [(1, 10), (2, 20), (3, 30), (5, 10), (6, 20), (7, 40), (8, 40),
         (9, 40), (11, 40), (13, 50), (14, 50), (15, 50), (16, 40)],
      PackageMetaData = map_of [(10, demo_metadata), (20, demo_metadata), (50, demo_metadata)],
      Dirty = {}\<rparr>"

text \<open>
  A registry with six entries: two tagged with \<open>http://x\<close>, three tagged with URLs
  that differ from it by a trailing slash, by case and by scheme, and one without the tag.
\<close>

definition demo_registry :: "FAssetData list" where
  "demo_registry =
     [\<lparr>ObjectPath = ''/Game/A'', TagsAndValues = [MD_AssetSourceURL \<mapsto> ''http://x'']\<rparr>,
      \<lparr>ObjectPath = ''/Game/B'', TagsAndValues = [MD_AssetSourceURL \<mapsto> ''http://x/'']\<rparr>,
      \<lparr>ObjectPath = ''/Game/C'', TagsAndValues = [MD_AssetSourceURL \<mapsto> ''HTTP://X'']\<rparr>,
      \<lparr>ObjectPath = ''/Game/D'', TagsAndValues = [MD_AssetSourceURL \<mapsto> ''https://x'']\<rparr>,
      \<lparr>ObjectPath = ''/Game/E'', TagsAndValues = Map.empty\<rparr>,
      \<lparr>ObjectPath = ''/Game/F'', TagsAndValues = [MD_AssetSourceURL \<mapsto> ''http://x'']\<rparr>]"

section \<open>Strings compared ignoring case: helper lemmas\<close>

lemma FStringEq_refl [simp]: "FStringEq A A"
  by (simp add: FStringEq_def)

lemma FStringEq_sym: "FStringEq A B \<Longrightarrow> FStringEq B A"
  by (simp add: FStringEq_def)

lemma FStringEq_trans: "FStringEq A B \<Longrightarrow> FStringEq B C \<Longrightarrow> FStringEq A C"
  by (simp add: FStringEq_def)

lemma FStringEq_Nil [simp]: "FStringEq A [] = (A = [])" "FStringEq [] A = (A = [])"
  by (auto simp: FStringEq_def Lower_def)

lemma FStringNe_Nil [simp]: "FStringNe A [] = (A \<noteq> [])"
  by (simp add: FStringNe_def)

section \<open>The tally: helper lemmas\<close>

lemma FindMetaData_eq: "FindMetaData h p = PackageMetaData h p"
  by (auto simp: FindMetaData_def HasMetaData_def GetMetaData_def split: option.splits)

lemma stored_url_nonempty: "stored_url h a = Some u \<Longrightarrow> u \<noteq> []"
  by (auto simp: stored_url_def split: option.splits if_splits)

lemma stored_url_has_package: "stored_url h a = Some u \<Longrightarrow> has_package h a"
  by (auto simp: stored_url_def has_package_def split: option.splits)

lemma stored_url_has_metadata: "stored_url h a = Some u \<Longrightarrow> has_metadata h a"
  by (auto simp: stored_url_def has_metadata_def HasMetaData_def split: option.splits)

lemma has_metadata_has_package: "has_metadata h a \<Longrightarrow> has_package h a"
  by (auto simp: has_package_def has_metadata_def split: option.splits)

lemma tally_object_cases:
  "tally_object h t a =
     (if \<not> has_package h a then t
      else case stored_url h a of
             Some u \<Rightarrow> t\<lparr>URLUsageMap := AddOne (URLUsageMap t) u\<rparr>
           | None \<Rightarrow> t\<lparr>NumAssetsWithNoURL := NumAssetsWithNoURL t + 1\<rparr>)"
  by (auto simp: tally_object_def has_package_def stored_url_def FindMetaData_eq Let_def
           split: option.splits)

lemma key_found_iff:
  "(\<exists>(k', c) \<in> set m. FStringEq k' k) \<longleftrightarrow> Lower k \<in> set (map (\<lambda>e. Lower (fst e)) m)"
  for m :: URLUsage
  by (force simp: FStringEq_def)

lemma keys_bump:
  "map fst (map (\<lambda>(k', c). if FStringEq k' k then (k', c + 1) else (k', c)) xs) = map fst xs"
  for xs :: URLUsage
  by (induction xs) auto

lemma keys_AddOne:
  "map fst (AddOne m k)
     = (if Lower k \<in> set (map (\<lambda>e. Lower (fst e)) m) then map fst m else map fst m @ [k])"
  unfolding AddOne_def keys_bump by (simp add: FindOrAdd_def key_found_iff)

lemma folded_keys: "map (\<lambda>e. Lower (fst e)) m = map Lower (map fst m)"
  by simp

lemma distinct_AddOne:
  "distinct (map (\<lambda>e. Lower (fst e)) m) \<Longrightarrow> distinct (map (\<lambda>e. Lower (fst e)) (AddOne m k))"
  unfolding folded_keys keys_AddOne by simp

lemma find_bump:
  "find (\<lambda>(k', c). FStringEq k' q)
        (map (\<lambda>(k', c). if FStringEq k' k then (k', c + 1) else (k', c)) xs)
   = map_option (\<lambda>(k', c). if FStringEq k' k then (k', c + 1) else (k', c))
       (find (\<lambda>(k', c). FStringEq k' q) xs)"
  for xs :: URLUsage
proof (induction xs)
  case Nil
  then show ?case by simp
next
  case (Cons p xs)
  obtain a b where p: "p = (a, b)" by (cases p)
  show ?case using Cons
    by (cases "FStringEq a k"; cases "FStringEq a q"; simp add: p)
qed

lemma find_snoc:
  "find P (xs @ [x]) = (case find P xs of None \<Rightarrow> (if P x then Some x else None) | Some y \<Rightarrow> Some y)"
  by (induction xs) auto

lemma find_key_None:
  "find (\<lambda>(k', c). FStringEq k' q) m = None \<longleftrightarrow> \<not> (\<exists>(k', c) \<in> set m. FStringEq k' q)"
  for m :: URLUsage
  by (auto simp: find_None_iff)

lemma find_key_Some:
  "find (\<lambda>(k', c). FStringEq k' q) m = Some (k', c) \<Longrightarrow> FStringEq k' q"
  for m :: URLUsage
  by (induction m) (auto split: if_splits)

lemma usage_AddOne:
  "usage (AddOne m k) q = (if FStringEq q k then usage m k + 1 else usage m q)"
proof (cases "\<exists>(k', c) \<in> set m. FStringEq k' k")
  case True
  then have foa: "FindOrAdd m k = m" by (simp add: FindOrAdd_def)
  show ?thesis
  proof (cases "FStringEq q k")
    case qk: True
    then have same: "(\<lambda>(k', c :: nat). FStringEq k' q) = (\<lambda>(k', c). FStringEq k' k)"
      by (auto simp: fun_eq_iff FStringEq_def)
    obtain k' c where f: "find (\<lambda>(k', c). FStringEq k' k) m = Some (k', c)"
      using True find_key_None [of k m] by (cases "find (\<lambda>(k', c). FStringEq k' k) m") auto
    then have "FStringEq k' k" by (rule find_key_Some)
    then show ?thesis using qk f
      by (simp add: usage_def AddOne_def foa find_bump same)
  next
    case qk: False
    show ?thesis
    proof (cases "find (\<lambda>(k', c). FStringEq k' q) m")
      case None
      then show ?thesis using qk by (simp add: usage_def AddOne_def foa find_bump)
    next
      case (Some e)
      obtain k' c where e: "e = (k', c)" by (cases e)
      then have "FStringEq k' q" using Some find_key_Some by blast
      then have "\<not> FStringEq k' k" using qk by (auto simp: FStringEq_def)
      then show ?thesis using qk Some e by (simp add: usage_def AddOne_def foa find_bump)
    qed
  qed
next
  case False
  then have foa: "FindOrAdd m k = m @ [(k, 0)]" by (simp add: FindOrAdd_def)
  have nk: "find (\<lambda>(k', c). FStringEq k' k) m = None" using False find_key_None [of k m] by blast
  show ?thesis
  proof (cases "FStringEq q k")
    case qk: True
    then have same: "(\<lambda>(k', c :: nat). FStringEq k' q) = (\<lambda>(k', c). FStringEq k' k)"
      by (auto simp: fun_eq_iff FStringEq_def)
    show ?thesis using qk nk
      by (simp add: usage_def AddOne_def foa find_bump same find_snoc)
  next
    case qk: False
    then have kq: "\<not> FStringEq k q" by (auto simp: FStringEq_def)
    show ?thesis
    proof (cases "find (\<lambda>(k', c). FStringEq k' q) m")
      case None
      then show ?thesis using qk kq by (simp add: usage_def AddOne_def foa find_bump find_snoc)
    next
      case (Some e)
      obtain k' c where e: "e = (k', c)" by (cases e)
      then have "FStringEq k' q" using Some find_key_Some by blast
      then have "\<not> FStringEq k' k" using qk by (auto simp: FStringEq_def)
      then show ?thesis using qk Some e
        by (simp add: usage_def AddOne_def foa find_bump find_snoc)
    qed
  qed
qed

lemma bump_absent:
  "Lower k \<notin> set (map (\<lambda>e. Lower (fst e)) xs) \<Longrightarrow>
   map (\<lambda>(k', c). if FStringEq k' k then (k', c + 1) else (k', c)) xs = xs"
  for xs :: URLUsage
  by (induction xs) (auto simp: FStringEq_def)

lemma sum_bump_present:
  "Lower k \<in> set (map (\<lambda>e. Lower (fst e)) xs) \<Longrightarrow> distinct (map (\<lambda>e. Lower (fst e)) xs) \<Longrightarrow>
   sum_list (map snd (map (\<lambda>(k', c). if FStringEq k' k then (k', c + 1) else (k', c)) xs))
     = sum_list (map snd xs) + 1"
  for xs :: URLUsage
proof (induction xs)
  case Nil
  then show ?case by simp
next
  case (Cons p xs)
  obtain k' c where p: "p = (k', c)" by (cases p)
  show ?case
  proof (cases "FStringEq k' k")
    case True
    then have "Lower k \<notin> set (map (\<lambda>e. Lower (fst e)) xs)"
      using Cons.prems(2) p by (auto simp: FStringEq_def)
    then show ?thesis using True p by (simp add: bump_absent del: map_map)
  next
    case False
    then have "Lower k \<in> set (map (\<lambda>e. Lower (fst e)) xs)"
      using Cons.prems(1) p by (auto simp: FStringEq_def)
    then show ?thesis using False Cons p by (simp del: map_map)
  qed
qed

lemma sum_AddOne:
  assumes d: "distinct (map (\<lambda>e. Lower (fst e)) m)"
  shows "sum_list (map snd (AddOne m k)) = sum_list (map snd m) + 1"
proof (cases "Lower k \<in> set (map (\<lambda>e. Lower (fst e)) m)")
  case True
  then have "FindOrAdd m k = m" by (simp add: FindOrAdd_def key_found_iff)
  then show ?thesis using sum_bump_present [OF True d] by (simp add: AddOne_def del: map_map)
next
  case False
  then have foa: "FindOrAdd m k = m @ [(k, 0)]" by (simp add: FindOrAdd_def key_found_iff)
  have "Lower k \<in> set (map (\<lambda>e. Lower (fst e)) (m @ [(k, 0)]))" by simp
  moreover have "distinct (map (\<lambda>e. Lower (fst e)) (m @ [(k, 0)]))" using d False by simp
  ultimately have "sum_list (map snd (map (\<lambda>(k', c). if FStringEq k' k then (k', c + 1) else (k', c))
       (m @ [(k, 0)]))) = sum_list (map snd (m @ [(k, 0)])) + 1"
    by (rule sum_bump_present)
  then show ?thesis by (simp add: AddOne_def foa del: map_map)
qed

lemma Summarize_Nil: "Summarize h [] = \<lparr>URLUsageMap = [], NumAssetsWithNoURL = 0\<rparr>"
  by (simp add: Summarize_def)

lemma Summarize_snoc: "Summarize h (objs @ [a]) = tally_object h (Summarize h objs) a"
  by (simp add: Summarize_def)

lemma Summarize_distinct: "distinct (map (\<lambda>e. Lower (fst e)) (URLUsageMap (Summarize h objs)))"
proof (induction objs rule: rev_induct)
  case Nil
  then show ?case by (simp add: Summarize_Nil)
next
  case (snoc a objs)
  then show ?case
    by (simp add: Summarize_snoc tally_object_cases distinct_AddOne split: option.splits
             del: map_map)
qed

lemma Summarize_sum:
  "sum_list (map snd (URLUsageMap (Summarize h objs))) + NumAssetsWithNoURL (Summarize h objs)
   = length (filter (has_package h) objs)"
proof (induction objs rule: rev_induct)
  case Nil
  then show ?case by (simp add: Summarize_Nil)
next
  case (snoc a objs)
  then show ?case
    by (simp add: Summarize_snoc tally_object_cases sum_AddOne [OF Summarize_distinct]
             split: option.splits)
qed

lemma Summarize_usage:
  "usage (URLUsageMap (Summarize h objs)) k
   = length (filter (\<lambda>a. \<exists>v. stored_url h a = Some v \<and> FStringEq v k) objs)"
proof (induction objs rule: rev_induct)
  case Nil
  then show ?case by (simp add: Summarize_Nil usage_def)
next
  case (snoc a objs)
  have sp: "stored_url h a \<noteq> None \<Longrightarrow> has_package h a"
    using stored_url_has_package by blast
  have step: "usage (URLUsageMap (tally_object h (Summarize h objs) a)) k
     = usage (URLUsageMap (Summarize h objs)) k
       + (if \<exists>v. stored_url h a = Some v \<and> FStringEq v k then 1 else 0)"
  proof (cases "stored_url h a")
    case None
    then show ?thesis by (simp add: tally_object_cases)
  next
    case (Some u)
    then have "has_package h a" using sp by simp
    moreover have "FStringEq k u \<longleftrightarrow> FStringEq u k" using FStringEq_sym by blast
    moreover have "FStringEq k u \<Longrightarrow>
        usage (URLUsageMap (Summarize h objs)) u = usage (URLUsageMap (Summarize h objs)) k"
    proof -
      assume "FStringEq k u"
      then have "(\<lambda>(k', c :: nat). FStringEq k' u) = (\<lambda>(k', c). FStringEq k' k)"
        by (auto simp: fun_eq_iff FStringEq_def)
      then show ?thesis by (simp add: usage_def)
    qed
    ultimately show ?thesis using Some by (simp add: tally_object_cases usage_AddOne)
  qed
  show ?case using snoc step by (simp add: Summarize_snoc)
qed

lemma Summarize_nourl:
  "NumAssetsWithNoURL (Summarize h objs)
   = length (filter (\<lambda>a. has_package h a \<and> stored_url h a = None) objs)"
proof (induction objs rule: rev_induct)
  case Nil
  then show ?case by (simp add: Summarize_Nil)
next
  case (snoc a objs)
  then show ?case
    by (auto simp: Summarize_snoc tally_object_cases split: option.splits)
qed

lemma fst_set_AddOne:
  "fst ` set (AddOne m k)
     = (if Lower k \<in> set (map (\<lambda>e. Lower (fst e)) m) then fst ` set m else insert k (fst ` set m))"
proof -
  have "set (map fst (AddOne m k))
     = (if Lower k \<in> set (map (\<lambda>e. Lower (fst e)) m) then set (map fst m) else insert k (set (map fst m)))"
    unfolding keys_AddOne by auto
  then show ?thesis by simp
qed

lemma folded_key_mem:
  "Lower k \<in> set (map (\<lambda>e. Lower (fst e)) m) \<longleftrightarrow> (\<exists>k' \<in> fst ` set m. Lower k' = Lower k)"
  by force

lemma Summarize_keys_subset:
  "k \<in> fst ` set (URLUsageMap (Summarize h objs)) \<Longrightarrow> \<exists>a \<in> set objs. stored_url h a = Some k"
proof (induction objs rule: rev_induct)
  case Nil
  then show ?case by (simp add: Summarize_Nil)
next
  case (snoc a objs)
  then show ?case
    by (auto simp: Summarize_snoc tally_object_cases fst_set_AddOne
             split: option.splits if_splits simp del: set_map)
qed

lemma Summarize_keys_cover:
  "a \<in> set objs \<Longrightarrow> stored_url h a = Some v \<Longrightarrow>
   \<exists>k \<in> fst ` set (URLUsageMap (Summarize h objs)). FStringEq k v"
proof (induction objs rule: rev_induct)
  case Nil
  then show ?case by simp
next
  case (snoc b objs)
  let ?m = "URLUsageMap (Summarize h objs)"
  have grow: "fst ` set ?m \<subseteq> fst ` set (URLUsageMap (Summarize h (objs @ [b])))"
    by (auto simp: Summarize_snoc tally_object_cases fst_set_AddOne
             split: option.splits simp del: set_map)
  show ?case
  proof (cases "a \<in> set objs")
    case True
    then show ?thesis using snoc.IH snoc.prems(2) grow by blast
  next
    case False
    then have ab: "a = b" using snoc.prems(1) by simp
    then have pk: "has_package h b" using snoc.prems(2) stored_url_has_package by blast
    have new: "URLUsageMap (Summarize h (objs @ [b])) = AddOne ?m v"
      using ab snoc.prems(2) pk by (simp add: Summarize_snoc tally_object_cases)
    show ?thesis
    proof (cases "Lower v \<in> set (map (\<lambda>e. Lower (fst e)) ?m)")
      case True
      then obtain k where "k \<in> fst ` set ?m" "Lower k = Lower v"
        unfolding folded_key_mem by blast
      then have "k \<in> fst ` set (URLUsageMap (Summarize h (objs @ [b])))" and "FStringEq k v"
        using grow by (auto simp: FStringEq_def)
      then show ?thesis by blast
    next
      case False
      then show ?thesis unfolding new fst_set_AddOne by simp
    qed
  qed
qed

lemma snoc_eq_split:
  "xs @ [x] = ys @ y # zs \<longleftrightarrow>
     (zs = [] \<and> xs = ys \<and> x = y) \<or> (\<exists>zs'. zs = zs' @ [x] \<and> xs = ys @ y # zs')"
  by (cases zs rule: rev_cases) auto

lemma Summarize_keys_first:
  "fst ` set (URLUsageMap (Summarize h objs))
   = {k. \<exists>before a after. objs = before @ a # after \<and> stored_url h a = Some k
         \<and> (\<forall>b \<in> set before. \<forall>v. stored_url h b = Some v \<longrightarrow> \<not> FStringEq v k)}"
proof (induction objs rule: rev_induct)
  case Nil
  then show ?case by (simp add: Summarize_Nil)
next
  case (snoc c objs)
  let ?m = "URLUsageMap (Summarize h objs)"
  let ?first = "\<lambda>objs k. \<exists>before a after. objs = before @ a # after \<and> stored_url h a = Some k
         \<and> (\<forall>b \<in> set before. \<forall>v. stored_url h b = Some v \<longrightarrow> \<not> FStringEq v k)"
  have old: "?first (objs @ [c]) k" if "?first objs k" for k
  proof -
    from that obtain before a after where "objs = before @ a # after" "stored_url h a = Some k"
      "\<forall>b \<in> set before. \<forall>v. stored_url h b = Some v \<longrightarrow> \<not> FStringEq v k" by blast
    then have "objs @ [c] = before @ a # (after @ [c])" by simp
    then show ?thesis using \<open>stored_url h a = Some k\<close>
        \<open>\<forall>b \<in> set before. \<forall>v. stored_url h b = Some v \<longrightarrow> \<not> FStringEq v k\<close> by blast
  qed
  have split: "?first (objs @ [c]) k \<longleftrightarrow>
      ?first objs k \<or> (stored_url h c = Some k
         \<and> (\<forall>b \<in> set objs. \<forall>v. stored_url h b = Some v \<longrightarrow> \<not> FStringEq v k))" for k
  proof
    assume "?first (objs @ [c]) k"
    then obtain before a after where sp: "objs @ [c] = before @ a # after"
      and u: "stored_url h a = Some k"
      and f: "\<forall>b \<in> set before. \<forall>v. stored_url h b = Some v \<longrightarrow> \<not> FStringEq v k" by blast
    from snoc_eq_split [THEN iffD1, OF sp]
    have "(after = [] \<and> objs = before \<and> c = a)
        \<or> (\<exists>after'. after = after' @ [c] \<and> objs = before @ a # after')" .
    then show "?first objs k \<or> (stored_url h c = Some k
         \<and> (\<forall>b \<in> set objs. \<forall>v. stored_url h b = Some v \<longrightarrow> \<not> FStringEq v k))"
    proof (elim disjE conjE exE)
      assume "objs = before" and "c = a"
      then show ?thesis using u f by simp
    next
      fix after'
      assume "objs = before @ a # after'"
      then have "?first objs k" using u f by blast
      then show ?thesis ..
    qed
  next
    assume "?first objs k \<or> (stored_url h c = Some k
         \<and> (\<forall>b \<in> set objs. \<forall>v. stored_url h b = Some v \<longrightarrow> \<not> FStringEq v k))"
    then show "?first (objs @ [c]) k"
    proof
      assume "?first objs k"
      then show ?thesis by (rule old)
    next
      assume "stored_url h c = Some k
         \<and> (\<forall>b \<in> set objs. \<forall>v. stored_url h b = Some v \<longrightarrow> \<not> FStringEq v k)"
      then have "objs @ [c] = objs @ c # []" "stored_url h c = Some k"
        "\<forall>b \<in> set objs. \<forall>v. stored_url h b = Some v \<longrightarrow> \<not> FStringEq v k" by simp_all
      then show ?thesis by blast
    qed
  qed
  have known: "Lower k \<in> set (map (\<lambda>e. Lower (fst e)) ?m)
      \<longleftrightarrow> (\<exists>b \<in> set objs. \<exists>v. stored_url h b = Some v \<and> FStringEq v k)" for k
  proof
    assume "Lower k \<in> set (map (\<lambda>e. Lower (fst e)) ?m)"
    then obtain k' where k': "k' \<in> fst ` set ?m" "Lower k' = Lower k"
      unfolding folded_key_mem by blast
    then obtain b where "b \<in> set objs" "stored_url h b = Some k'"
      using Summarize_keys_subset by blast
    then show "\<exists>b \<in> set objs. \<exists>v. stored_url h b = Some v \<and> FStringEq v k"
      using k'(2) by (auto simp: FStringEq_def)
  next
    assume "\<exists>b \<in> set objs. \<exists>v. stored_url h b = Some v \<and> FStringEq v k"
    then obtain b v where bv: "b \<in> set objs" "stored_url h b = Some v" and "FStringEq v k"
      by blast
    from bv have "\<exists>k' \<in> fst ` set ?m. FStringEq k' v" by (rule Summarize_keys_cover)
    then obtain k' where "k' \<in> fst ` set ?m" "FStringEq k' v" by blast
    then show "Lower k \<in> set (map (\<lambda>e. Lower (fst e)) ?m)"
      unfolding folded_key_mem using \<open>FStringEq v k\<close> by (auto simp: FStringEq_def)
  qed
  have keys: "k \<in> fst ` set (URLUsageMap (Summarize h (objs @ [c])))
      \<longleftrightarrow> k \<in> fst ` set ?m
          \<or> (stored_url h c = Some k \<and> Lower k \<notin> set (map (\<lambda>e. Lower (fst e)) ?m))" for k
  proof (cases "stored_url h c")
    case None
    then show ?thesis by (simp add: Summarize_snoc tally_object_cases)
  next
    case (Some u)
    then have "has_package h c" by (rule stored_url_has_package)
    then have "URLUsageMap (Summarize h (objs @ [c])) = AddOne ?m u"
      using Some by (simp add: Summarize_snoc tally_object_cases)
    then have "fst ` set (URLUsageMap (Summarize h (objs @ [c])))
        = (if Lower u \<in> set (map (\<lambda>e. Lower (fst e)) ?m) then fst ` set ?m
           else insert u (fst ` set ?m))"
      by (simp only: fst_set_AddOne)
    then show ?thesis using Some
      by (cases "Lower u \<in> set (map (\<lambda>e. Lower (fst e)) ?m)") auto
  qed
  show ?case
  proof (rule set_eqI)
    fix k
    have "k \<in> fst ` set (URLUsageMap (Summarize h (objs @ [c])))
      \<longleftrightarrow> ?first objs k
          \<or> (stored_url h c = Some k
              \<and> \<not> (\<exists>b \<in> set objs. \<exists>v. stored_url h b = Some v \<and> FStringEq v k))"
      unfolding keys known using snoc.IH by simp
    also have "\<dots> \<longleftrightarrow> ?first (objs @ [c]) k"
      unfolding split by blast
    finally show "k \<in> fst ` set (URLUsageMap (Summarize h (objs @ [c])))
      \<longleftrightarrow> k \<in> {k. ?first (objs @ [c]) k}" by simp
  qed
qed

lemma usage_entry:
  "distinct (map (\<lambda>e. Lower (fst e)) m) \<Longrightarrow> (k, c) \<in> set m \<Longrightarrow> usage m k = c"
proof (induction m)
  case Nil
  then show ?case by simp
next
  case (Cons p m)
  obtain k' c' where p: "p = (k', c')" by (cases p)
  show ?case
  proof (cases "(k, c) = p")
    case True
    then show ?thesis using p by (simp add: usage_def)
  next
    case False
    then have mem: "(k, c) \<in> set m" using Cons.prems(2) by simp
    then have img: "Lower k \<in> (\<lambda>e. Lower (fst e)) ` set m" by force
    have nin: "Lower k' \<notin> (\<lambda>e. Lower (fst e)) ` set m" using Cons.prems(1) p by simp
    have "\<not> FStringEq k' k"
    proof
      assume "FStringEq k' k"
      then have "Lower k' = Lower k" by (simp add: FStringEq_def)
      then show False using nin img by simp
    qed
    moreover have "usage m k = c" using Cons.IH Cons.prems(1) mem by simp
    ultimately show ?thesis using p by (simp add: usage_def)
  qed
qed

section \<open>Summarize\<close>

text \<open>
  Claim C2. The counts of the tally and \<^verbatim>\<open>NumAssetsWithNoURL\<close> add up to the number of
  selected objects that have an outermost package: the loop passes over an object whose
  \<^verbatim>\<open>GetOutermost()\<close> is null and counts it nowhere. For a selection in which every object
  has a package the sum is the length of the selection.
\<close>

theorem Summarize_total:
  "sum_list (map snd (URLUsageMap (Summarize h SelectedObjects)))
     + NumAssetsWithNoURL (Summarize h SelectedObjects)
   = length (filter (has_package h) SelectedObjects)
   \<and> ((\<forall>a \<in> set SelectedObjects. has_package h a) \<longrightarrow>
        sum_list (map snd (URLUsageMap (Summarize h SelectedObjects)))
          + NumAssetsWithNoURL (Summarize h SelectedObjects)
        = length SelectedObjects)"
  by (simp add: Summarize_sum)

theorem Summarize_total_witness:
  "sum_list (map snd (URLUsageMap (Summarize demo_editor [1, 2, 3, 4, 5, 6])))
     + NumAssetsWithNoURL (Summarize demo_editor [1, 2, 3, 4, 5, 6]) = 5
   \<and> sum_list (map snd (URLUsageMap (Summarize demo_editor [1, 2, 3, 5, 6, 14, 15])))
     + NumAssetsWithNoURL (Summarize demo_editor [1, 2, 3, 5, 6, 14, 15])
     = length [1, 2, 3, 5, 6, 14, 15 :: nat]"
  using Summarize_total [of demo_editor "[1, 2, 3, 4, 5, 6]"]
    Summarize_total [of demo_editor "[1, 2, 3, 5, 6, 14, 15]"]
  by (simp add: has_package_def demo_editor_def)

section \<open>Summarize: what each object adds\<close>

text \<open>
  Claim C3. The map of the tally finds a key ignoring case. One round of the loop: an
  object with a stored URL \<open>u\<close> (which is never empty) raises the count found under
  \<open>u\<close> by one and changes no other count and not \<^verbatim>\<open>NumAssetsWithNoURL\<close>; an object
  that has a package and no stored URL raises \<^verbatim>\<open>NumAssetsWithNoURL\<close> by one and changes
  nothing else; an object without a package changes nothing. After the loop no two keys
  of the tally are equal ignoring case; the keys are the stored URLs of the selected
  objects in the spelling of the first object that carries them, a URL that differs from
  an earlier one only by case getting no key of its own; every key is non-empty and is
  mapped to the number of selected objects whose URL is equal to it ignoring case, which
  is at least 1; \<^verbatim>\<open>NumAssetsWithNoURL\<close> is the number of selected objects that have a
  package and no stored URL; the empty selection gives the empty tally and the count 0.
\<close>

theorem Summarize_tally:
  "(stored_url h Asset = Some u \<longrightarrow>
      u \<noteq> []
      \<and> usage (URLUsageMap (tally_object h t Asset)) k
          = (if FStringEq k u then usage (URLUsageMap t) u + 1 else usage (URLUsageMap t) k)
      \<and> NumAssetsWithNoURL (tally_object h t Asset) = NumAssetsWithNoURL t)
   \<and> (stored_url h Asset = None \<and> has_package h Asset \<longrightarrow>
      tally_object h t Asset = t\<lparr>NumAssetsWithNoURL := NumAssetsWithNoURL t + 1\<rparr>)
   \<and> (\<not> has_package h Asset \<longrightarrow> tally_object h t Asset = t)
   \<and> distinct (map (\<lambda>e. Lower (fst e)) (URLUsageMap (Summarize h SelectedObjects)))
   \<and> fst ` set (URLUsageMap (Summarize h SelectedObjects))
       = {URL. \<exists>before a after. SelectedObjects = before @ a # after
            \<and> stored_url h a = Some URL
            \<and> (\<forall>b \<in> set before. \<forall>v. stored_url h b = Some v \<longrightarrow> \<not> FStringEq v URL)}
   \<and> (\<forall>(URL, n) \<in> set (URLUsageMap (Summarize h SelectedObjects)).
         URL \<noteq> [] \<and> 1 \<le> n
         \<and> n = length (filter (\<lambda>a. \<exists>v. stored_url h a = Some v \<and> FStringEq v URL)
                  SelectedObjects))
   \<and> NumAssetsWithNoURL (Summarize h SelectedObjects)
       = length (filter (\<lambda>a. has_package h a \<and> stored_url h a = None) SelectedObjects)
   \<and> Summarize h [] = \<lparr>URLUsageMap = [], NumAssetsWithNoURL = 0\<rparr>"
proof -
  let ?m = "URLUsageMap (Summarize h SelectedObjects)"
  have step_url: "stored_url h Asset = Some u \<longrightarrow>
      u \<noteq> []
      \<and> usage (URLUsageMap (tally_object h t Asset)) k
          = (if FStringEq k u then usage (URLUsageMap t) u + 1 else usage (URLUsageMap t) k)
      \<and> NumAssetsWithNoURL (tally_object h t Asset) = NumAssetsWithNoURL t"
    using stored_url_nonempty [of h Asset u] stored_url_has_package [of h Asset u]
    by (simp add: tally_object_cases usage_AddOne)
  have step_none: "stored_url h Asset = None \<and> has_package h Asset \<longrightarrow>
      tally_object h t Asset = t\<lparr>NumAssetsWithNoURL := NumAssetsWithNoURL t + 1\<rparr>"
    by (simp add: tally_object_cases)
  have step_skip: "\<not> has_package h Asset \<longrightarrow> tally_object h t Asset = t"
    by (simp add: tally_object_cases)
  have dist: "distinct (map (\<lambda>e. Lower (fst e)) ?m)"
    by (rule Summarize_distinct)
  have keys: "fst ` set ?m
       = {URL. \<exists>before a after. SelectedObjects = before @ a # after
            \<and> stored_url h a = Some URL
            \<and> (\<forall>b \<in> set before. \<forall>v. stored_url h b = Some v \<longrightarrow> \<not> FStringEq v URL)}"
    by (rule Summarize_keys_first)
  have pos: "\<forall>(URL, n) \<in> set ?m.
         URL \<noteq> [] \<and> 1 \<le> n
         \<and> n = length (filter (\<lambda>a. \<exists>v. stored_url h a = Some v \<and> FStringEq v URL)
                  SelectedObjects)"
  proof (clarify)
    fix URL n
    assume mem: "(URL, n) \<in> set ?m"
    then have "URL \<in> fst ` set ?m" by force
    then have "\<exists>a \<in> set SelectedObjects. stored_url h a = Some URL"
      by (rule Summarize_keys_subset)
    then obtain a where a: "a \<in> set SelectedObjects" "stored_url h a = Some URL" by blast
    have ne: "URL \<noteq> []" using a(2) by (rule stored_url_nonempty)
    have "usage ?m URL = n" using mem dist by (rule usage_entry [rotated])
    then have n: "n = length (filter (\<lambda>a. \<exists>v. stored_url h a = Some v \<and> FStringEq v URL)
                  SelectedObjects)"
      by (simp add: Summarize_usage)
    have "a \<in> set (filter (\<lambda>a. \<exists>v. stored_url h a = Some v \<and> FStringEq v URL) SelectedObjects)"
      using a by simp
    then have "0 < length (filter (\<lambda>a. \<exists>v. stored_url h a = Some v \<and> FStringEq v URL)
                  SelectedObjects)"
      by (rule length_pos_if_in_set)
    then have "1 \<le> n" unfolding n by linarith
    then show "URL \<noteq> [] \<and> 1 \<le> n
         \<and> n = length (filter (\<lambda>a. \<exists>v. stored_url h a = Some v \<and> FStringEq v URL)
                  SelectedObjects)"
      using ne n by blast
  qed
  have nourl: "NumAssetsWithNoURL (Summarize h SelectedObjects)
       = length (filter (\<lambda>a. has_package h a \<and> stored_url h a = None) SelectedObjects)"
    by (rule Summarize_nourl)
  have nil: "Summarize h [] = \<lparr>URLUsageMap = [], NumAssetsWithNoURL = 0\<rparr>"
    by (rule Summarize_Nil)
  show ?thesis
    using step_url step_none step_skip dist keys pos nourl nil by blast
qed

theorem Summarize_tally_witness:
  "stored_url demo_editor 1 = Some ''http://x''
   \<and> usage (URLUsageMap (tally_object demo_editor
             \<lparr>URLUsageMap = [(''http://x'', 1)], NumAssetsWithNoURL = 0\<rparr> 1)) ''http://x'' = 2
   \<and> stored_url demo_editor 3 = None \<and> has_package demo_editor 3
   \<and> tally_object demo_editor \<lparr>URLUsageMap = [], NumAssetsWithNoURL = 0\<rparr> 3
       = \<lparr>URLUsageMap = [], NumAssetsWithNoURL = 1\<rparr>
   \<and> NumAssetsWithNoURL (Summarize demo_editor [1, 2, 3, 5, 6]) = 2
   \<and> stored_url demo_editor 15 = Some ''http://B''
   \<and> usage (URLUsageMap (tally_object demo_editor
             \<lparr>URLUsageMap = [(''http://b'', 1)], NumAssetsWithNoURL = 0\<rparr> 15)) ''http://b'' = 2"
  using Summarize_tally [of demo_editor 1 "''http://x''"
      "\<lparr>URLUsageMap = [(''http://x'', 1)], NumAssetsWithNoURL = 0\<rparr>" "''http://x''"
      "[1, 2, 3, 5, 6]"]
    Summarize_tally [of demo_editor 15 "''http://B''"
      "\<lparr>URLUsageMap = [(''http://b'', 1)], NumAssetsWithNoURL = 0\<rparr>" "''http://b''"
      "[1, 2, 3, 5, 6]"]
    Summarize_tally [of demo_editor 3 "''http://x''"
      "\<lparr>URLUsageMap = [], NumAssetsWithNoURL = 0\<rparr>" "''http://z''"
      "[1, 2, 3, 5, 6]"]
  by (simp add: demo_editor_def demo_metadata_def MD_AssetSourceURL_def GetValue_def
      stored_url_def has_package_def usage_def FStringEq_def Lower_def ToLower_def)

text \<open>
  The claim as the specification states it makes every distinct URL a key with its own
  count. The objects 14 and 15 carry \<open>http://b\<close> and \<open>http://B\<close>, two URLs, and the
  tally holds the one key \<open>http://b\<close> with the count 2.
\<close>

theorem Summarize_tally_counterexample:
  "stored_url demo_editor 14 = Some ''http://b'' \<and> stored_url demo_editor 15 = Some ''http://B''
   \<and> URLUsageMap (Summarize demo_editor [14, 15]) = [(''http://b'', 2)]"
  by (simp add: Summarize_def tally_object_def stored_url_def demo_editor_def demo_metadata_def
      FindMetaData_eq GetValue_def MD_AssetSourceURL_def AddOne_def FindOrAdd_def FStringEq_def
      Lower_def ToLower_def)

section \<open>The scan of the selection: helper lemmas\<close>

lemma scan_object_cases:
  "scan_object h s a =
     (if \<not> has_package h a then s
      else if \<not> has_metadata h a then s\<lparr>bAnyMissingLicense := True\<rparr>
      else case stored_url h a of
             None \<Rightarrow> s\<lparr>bAnyMissingLicense := True, SharedLicenseAssetID := []\<rparr>
           | Some L \<Rightarrow>
               s\<lparr>SharedLicenseAssetID :=
                    (if \<not> bAnyHaveLicense s \<and> \<not> bAnyMissingLicense s then L
                     else if FStringNe L (SharedLicenseAssetID s) then []
                     else SharedLicenseAssetID s),
                 bAnyHaveLicense := True\<rparr>)"
  by (auto simp: scan_object_def has_package_def has_metadata_def stored_url_def FindMetaData_eq
                 HasMetaData_def Let_def split: option.splits)

lemma ScanSelection_snoc:
  "ScanSelection h (objs @ [a]) = scan_object h (ScanSelection h objs) a"
  by (simp add: ScanSelection_def)

lemma ScanSelection_Nil:
  "ScanSelection h [] =
     \<lparr>bAnyHaveLicense = False, bAnyMissingLicense = False, SharedLicenseAssetID = []\<rparr>"
  by (simp add: ScanSelection_def)

lemma scan_any_have:
  "bAnyHaveLicense (ScanSelection h objs) = (\<exists>a \<in> set objs. stored_url h a \<noteq> None)"
proof (induction objs rule: rev_induct)
  case Nil
  then show ?case by (simp add: ScanSelection_Nil)
next
  case (snoc a objs)
  have "stored_url h a \<noteq> None \<Longrightarrow> has_package h a \<and> has_metadata h a"
    using stored_url_has_package stored_url_has_metadata by blast
  then show ?case using snoc
    by (auto simp: ScanSelection_snoc scan_object_cases split: option.splits)
qed

lemma scan_any_missing:
  "bAnyMissingLicense (ScanSelection h objs)
     = (\<exists>a \<in> set objs. has_package h a \<and> stored_url h a = None)"
proof (induction objs rule: rev_induct)
  case Nil
  then show ?case by (simp add: ScanSelection_Nil)
next
  case (snoc a objs)
  have "\<not> has_metadata h a \<Longrightarrow> stored_url h a = None"
    using stored_url_has_metadata by (cases "stored_url h a") auto
  then show ?case using snoc
    by (auto simp: ScanSelection_snoc scan_object_cases split: option.splits)
qed

lemma scan_shared:
  "SharedLicenseAssetID (ScanSelection h objs) = shared_of h (filter (has_package h) objs)"
proof (induction objs rule: rev_induct)
  case Nil
  then show ?case by (simp add: ScanSelection_Nil shared_of_def)
next
  case (snoc a objs)
  let ?s = "ScanSelection h objs"
  let ?ps = "filter (has_package h) objs"
  let ?ok = "\<lambda>u b. case stored_url h b of Some v \<Rightarrow> FStringEq v u | None \<Rightarrow> \<not> has_metadata h b"
  show ?case
  proof (cases "has_package h a")
    case False
    then show ?thesis using snoc by (simp add: ScanSelection_snoc scan_object_cases)
  next
    case pk: True
    show ?thesis
    proof (cases "?ps")
      case Nil
      then have none: "\<forall>b \<in> set objs. \<not> has_package h b" by (simp add: filter_empty_conv)
      have nh: "\<not> bAnyHaveLicense ?s"
        using none stored_url_has_package by (fastforce simp: scan_any_have)
      have nm: "\<not> bAnyMissingLicense ?s" using none by (simp add: scan_any_missing)
      have sh: "SharedLicenseAssetID ?s = []" using snoc Nil by (simp add: shared_of_def)
      show ?thesis using pk Nil nh nm sh stored_url_has_metadata [of h a]
        by (auto simp: ScanSelection_snoc scan_object_cases shared_of_def split: option.splits)
    next
      case (Cons p ps')
      then have "p \<in> set (filter (has_package h) objs)" by simp
      then have pin: "p \<in> set objs" "has_package h p" by simp_all
      show ?thesis
      proof (cases "stored_url h p")
        case None
        then have "bAnyMissingLicense ?s" using pin by (auto simp: scan_any_missing)
        moreover have "SharedLicenseAssetID ?s = []" using snoc Cons None by (simp add: shared_of_def)
        ultimately show ?thesis using pk Cons None
          by (auto simp: ScanSelection_snoc scan_object_cases shared_of_def split: option.splits)
      next
        case (Some u)
        then have hv: "bAnyHaveLicense ?s" using pin by (auto simp: scan_any_have)
        have une: "u \<noteq> []" using Some by (rule stored_url_nonempty)
        have sh: "SharedLicenseAssetID ?s = (if \<forall>b \<in> set ?ps. ?ok u b then u else [])"
          using snoc Cons Some by (simp add: shared_of_def)
        have flt: "filter (has_package h) (objs @ [a]) = p # ps' @ [a]" using pk Cons by simp
        have sets: "set (p # ps' @ [a]) = insert a (set ?ps)" using Cons by auto
        have new: "shared_of h (p # ps' @ [a])
            = (if (\<forall>b \<in> set ?ps. ?ok u b) \<and> ?ok u a then u else [])"
          unfolding shared_of_def sets using Some by auto
        have step: "SharedLicenseAssetID (scan_object h ?s a)
            = (if (\<forall>b \<in> set ?ps. ?ok u b) \<and> ?ok u a then u else [])"
        proof (cases "has_metadata h a")
          case False
          then have "stored_url h a = None"
            using stored_url_has_metadata by (cases "stored_url h a") auto
          then show ?thesis using pk False sh by (simp add: scan_object_cases)
        next
          case md: True
          show ?thesis
          proof (cases "stored_url h a")
            case None
            then show ?thesis using pk md by (simp add: scan_object_cases)
          next
            case (Some L)
            then have "L \<noteq> []" by (rule stored_url_nonempty)
            then show ?thesis using pk md Some hv sh une
              by (simp add: scan_object_cases FStringNe_def)
          qed
        qed
        show ?thesis unfolding flt ScanSelection_snoc new step ..
      qed
    qed
  qed
qed

lemma shared_of_eq_iff:
  "shared_of h ps = u \<and> u \<noteq> [] \<longleftrightarrow>
     ps \<noteq> [] \<and> stored_url h (hd ps) = Some u
     \<and> (\<forall>a \<in> set ps. case stored_url h a of Some v \<Rightarrow> FStringEq v u
                                           | None \<Rightarrow> \<not> has_metadata h a)"
proof (cases ps)
  case Nil
  then show ?thesis by (auto simp: shared_of_def)
next
  case (Cons p ps')
  show ?thesis
  proof (cases "stored_url h p")
    case None
    then show ?thesis using Cons by (auto simp: shared_of_def)
  next
    case (Some v)
    then have "v \<noteq> []" by (rule stored_url_nonempty)
    then show ?thesis using Cons Some by (auto simp: shared_of_def)
  qed
qed

lemma SharedValue_iff:
  "SharedValue h objs = Some u \<longleftrightarrow>
     shared_of h (filter (has_package h) objs) = u \<and> u \<noteq> []"
  by (auto simp: SharedValue_def Let_def scan_shared)

lemma OpenLicenseURL_iff:
  "OpenLicenseURL u \<in> set (AddAssetSourceOptions h objs) \<longleftrightarrow> SharedValue h objs = Some u"
  by (auto simp: AddAssetSourceOptions_def SharedValue_def Let_def)

lemma mixed_shared_empty:
  assumes "a \<in> set objs" "b \<in> set objs"
    and "stored_url h a = Some u" "stored_url h b = Some v" "\<not> FStringEq u v"
  shows "SharedLicenseAssetID (ScanSelection h objs) = []"
proof (rule ccontr)
  assume ne: "SharedLicenseAssetID (ScanSelection h objs) \<noteq> []"
  let ?ps = "filter (has_package h) objs"
  let ?w = "SharedLicenseAssetID (ScanSelection h objs)"
  have "shared_of h ?ps = ?w \<and> ?w \<noteq> []" using ne by (simp add: scan_shared)
  then have all: "\<forall>c \<in> set ?ps. case stored_url h c of Some v \<Rightarrow> FStringEq v ?w
                                           | None \<Rightarrow> \<not> has_metadata h c"
    unfolding shared_of_eq_iff by blast
  have "a \<in> set ?ps" "b \<in> set ?ps"
    using assms stored_url_has_package by auto
  then have "FStringEq u ?w" "FStringEq v ?w"
    using all assms(3,4) by force+
  then have "FStringEq u v" by (simp add: FStringEq_def)
  then show False using assms(5) by simp
qed

section \<open>SharedValue\<close>

text \<open>
  Claim C1. The scan compares URLs ignoring case. For a selection in which every object has
  a metadata store, the shared URL is \<open>u\<close> exactly when the selection is not empty,
  \<open>u\<close> is the stored URL of its first object, and every selected object has a stored URL
  equal to \<open>u\<close> ignoring case; in every other case it is absent, also for the empty
  selection. For every selection of objects with a package, a shared URL \<open>u\<close> is the
  stored URL of the first object, and every selected object whose package has a metadata
  store has a stored URL equal to \<open>u\<close> ignoring case. The menu gets the direct open action
  for \<open>u\<close> exactly when the shared URL is \<open>u\<close>.
\<close>

theorem SharedValue_shared:
  "((\<forall>a \<in> set SelectedObjects. has_metadata h a) \<longrightarrow>
      (SharedValue h SelectedObjects = Some u \<longleftrightarrow>
         SelectedObjects \<noteq> [] \<and> stored_url h (hd SelectedObjects) = Some u
         \<and> (\<forall>a \<in> set SelectedObjects. \<exists>v. stored_url h a = Some v \<and> FStringEq v u)))
   \<and> ((\<forall>a \<in> set SelectedObjects. has_package h a) \<and> SharedValue h SelectedObjects = Some u \<longrightarrow>
         SelectedObjects \<noteq> [] \<and> stored_url h (hd SelectedObjects) = Some u
         \<and> (\<forall>a \<in> set SelectedObjects. has_metadata h a \<longrightarrow>
               (\<exists>v. stored_url h a = Some v \<and> FStringEq v u)))
   \<and> (OpenLicenseURL u \<in> set (AddAssetSourceOptions h SelectedObjects)
         \<longleftrightarrow> SharedValue h SelectedObjects = Some u)
   \<and> SharedValue h [] = None"
proof -
  let ?ok = "\<lambda>a. case stored_url h a of Some v \<Rightarrow> FStringEq v u | None \<Rightarrow> \<not> has_metadata h a"
  have gen: "SharedValue h SelectedObjects = Some u \<longleftrightarrow>
         SelectedObjects \<noteq> [] \<and> stored_url h (hd SelectedObjects) = Some u
         \<and> (\<forall>a \<in> set SelectedObjects. ?ok a)"
    if pk: "\<forall>a \<in> set SelectedObjects. has_package h a"
  proof -
    have "filter (has_package h) SelectedObjects = SelectedObjects" using pk by simp
    then show ?thesis by (simp only: SharedValue_iff shared_of_eq_iff)
  qed
  have A: "(\<forall>a \<in> set SelectedObjects. has_metadata h a) \<longrightarrow>
      (SharedValue h SelectedObjects = Some u \<longleftrightarrow>
         SelectedObjects \<noteq> [] \<and> stored_url h (hd SelectedObjects) = Some u
         \<and> (\<forall>a \<in> set SelectedObjects. \<exists>v. stored_url h a = Some v \<and> FStringEq v u))"
  proof
    assume md: "\<forall>a \<in> set SelectedObjects. has_metadata h a"
    then have pk: "\<forall>a \<in> set SelectedObjects. has_package h a"
      using has_metadata_has_package by blast
    have "?ok a \<longleftrightarrow> (\<exists>v. stored_url h a = Some v \<and> FStringEq v u)"
      if "a \<in> set SelectedObjects" for a
      using md that by (cases "stored_url h a") auto
    then show "SharedValue h SelectedObjects = Some u \<longleftrightarrow>
         SelectedObjects \<noteq> [] \<and> stored_url h (hd SelectedObjects) = Some u
         \<and> (\<forall>a \<in> set SelectedObjects. \<exists>v. stored_url h a = Some v \<and> FStringEq v u)"
      unfolding gen [OF pk] by auto
  qed
  have B: "(\<forall>a \<in> set SelectedObjects. has_package h a) \<and> SharedValue h SelectedObjects = Some u \<longrightarrow>
         SelectedObjects \<noteq> [] \<and> stored_url h (hd SelectedObjects) = Some u
         \<and> (\<forall>a \<in> set SelectedObjects. has_metadata h a \<longrightarrow>
               (\<exists>v. stored_url h a = Some v \<and> FStringEq v u))"
  proof
    assume as: "(\<forall>a \<in> set SelectedObjects. has_package h a) \<and> SharedValue h SelectedObjects = Some u"
    then have g: "SelectedObjects \<noteq> [] \<and> stored_url h (hd SelectedObjects) = Some u
         \<and> (\<forall>a \<in> set SelectedObjects. ?ok a)"
      using gen by blast
    have "\<exists>v. stored_url h a = Some v \<and> FStringEq v u"
      if "a \<in> set SelectedObjects" "has_metadata h a" for a
    proof -
      have "?ok a" using g that(1) by blast
      then show ?thesis using that(2) by (cases "stored_url h a") auto
    qed
    then show "SelectedObjects \<noteq> [] \<and> stored_url h (hd SelectedObjects) = Some u
         \<and> (\<forall>a \<in> set SelectedObjects. has_metadata h a \<longrightarrow>
               (\<exists>v. stored_url h a = Some v \<and> FStringEq v u))"
      using g by blast
  qed
  have C: "OpenLicenseURL u \<in> set (AddAssetSourceOptions h SelectedObjects)
         \<longleftrightarrow> SharedValue h SelectedObjects = Some u"
    by (rule OpenLicenseURL_iff)
  have D: "SharedValue h [] = None"
    by (simp add: SharedValue_def ScanSelection_Nil)
  show ?thesis using A B C D by blast
qed

theorem SharedValue_shared_witness:
  "has_metadata demo_editor 1 \<and> has_metadata demo_editor 5 \<and> has_metadata demo_editor 13
   \<and> SharedValue demo_editor [1, 5, 13] = Some ''http://x''
   \<and> OpenLicenseURL ''http://x'' \<in> set (AddAssetSourceOptions demo_editor [1, 5, 13])
   \<and> SharedValue demo_editor [1, 2] \<noteq> Some ''http://x''"
proof -
  have md: "\<forall>a \<in> set [1, 5, 13]. has_metadata demo_editor a"
    by (simp add: demo_editor_def has_metadata_def HasMetaData_def)
  have md': "\<forall>a \<in> set [1, 2]. has_metadata demo_editor a"
    by (simp add: demo_editor_def has_metadata_def HasMetaData_def)
  show ?thesis
    using md md' SharedValue_shared [of "[1, 5, 13]" demo_editor "''http://x''"]
      SharedValue_shared [of "[1, 2]" demo_editor "''http://x''"]
    by (simp add: demo_editor_def demo_metadata_def MD_AssetSourceURL_def GetValue_def
        stored_url_def FStringEq_def Lower_def ToLower_def)
qed

text \<open>
  The claim as the specification states it asks for identical URLs. The objects 1 and 13
  carry \<open>http://x\<close> and \<open>HTTP://X\<close>, which are not identical, and the selection of the
  two has the shared URL \<open>http://x\<close>.
\<close>

theorem SharedValue_shared_counterexample:
  "stored_url demo_editor 1 = Some ''http://x'' \<and> stored_url demo_editor 13 = Some ''HTTP://X''
   \<and> SharedValue demo_editor [1, 13] = Some ''http://x''"
  by (simp add: SharedValue_def ScanSelection_def scan_object_def demo_editor_def
      demo_metadata_def FindMetaData_eq GetValue_def MD_AssetSourceURL_def stored_url_def
      FStringNe_def FStringEq_def Lower_def ToLower_def)

text \<open>
  Claim C8. An object whose package has no metadata store is to be treated as an object
  without a URL by both queries. \<^verbatim>\<open>Summarize\<close> does so. The scan for the shared URL sets
  \<^verbatim>\<open>bAnyMissingLicense\<close> for such an object and leaves \<^verbatim>\<open>SharedLicenseAssetID\<close> as
  it is, where the branch for an empty value clears it: object 3 has no metadata store,
  and the selection of the objects 1 and 3 keeps the URL of object 1 as its shared URL and
  gets the direct open action, while the selection of the objects 1 and 6 (an empty
  value) and the selection of 3 and 1 have none.
\<close>

theorem SharedValue_missing_store:
  "\<not> has_metadata demo_editor 3 \<and> stored_url demo_editor 3 = None
   \<and> SharedValue demo_editor [1, 3] = Some ''http://x''
   \<and> AddAssetSourceOptions demo_editor [1, 3]
       = [OpenLicenseURL ''http://x'', LicenseURLWidget ''http://x'']
   \<and> SharedValue demo_editor [1, 6] = None
   \<and> SharedValue demo_editor [3, 1] = None
   \<and> NumAssetsWithNoURL (Summarize demo_editor [1, 3]) = 1"
  by (simp add: SharedValue_def AddAssetSourceOptions_def StartingValue_def ScanSelection_def
      scan_object_def Summarize_def tally_object_def demo_editor_def demo_metadata_def
      FindMetaData_eq GetValue_def MD_AssetSourceURL_def stored_url_def has_metadata_def
      HasMetaData_def AddOne_def FindOrAdd_def FStringNe_def FStringEq_def Lower_def
      ToLower_def)

section \<open>The starting value of the edit field\<close>

text \<open>
  Claim C9. When two selected objects carry URLs that differ even ignoring case, the edit
  field starts with the text \<open>[multiple values]\<close>; a commit by clearing, or of a text
  equal to the starting value ignoring case, leaves the editor as it is, so no annotation
  changes; so the text \<open>[multiple values]\<close> itself is never written to such a
  selection.
\<close>

theorem StartingValue_multiple_values:
  assumes "a \<in> set SelectedObjects" and "b \<in> set SelectedObjects"
    and "stored_url h a = Some u" and "stored_url h b = Some v" and "\<not> FStringEq u v"
  shows "StartingValue h SelectedObjects = ''[multiple values]''
         \<and> (TextCommitType = OnCleared \<or> FStringEq Val (StartingValue h SelectedObjects) \<longrightarrow>
              SetLicenseURLAction h WeakObjects (StartingValue h SelectedObjects) Val TextCommitType = h)
         \<and> SetLicenseURLAction h WeakObjects (StartingValue h SelectedObjects)
               ''[multiple values]'' TextCommitType = h"
proof -
  have sh: "SharedLicenseAssetID (ScanSelection h SelectedObjects) = []"
    using assms by (rule mixed_shared_empty)
  have hv: "bAnyHaveLicense (ScanSelection h SelectedObjects)"
    using assms(1,3) by (auto simp: scan_any_have)
  have sv: "StartingValue h SelectedObjects = ''[multiple values]''"
    using sh hv by (simp add: StartingValue_def)
  show ?thesis using sv by (auto simp: SetLicenseURLAction_def FStringNe_def)
qed

theorem StartingValue_multiple_values_witness:
  "StartingValue demo_editor [1, 2] = ''[multiple values]''
   \<and> SetLicenseURLAction demo_editor [1, 2] (StartingValue demo_editor [1, 2])
         ''[multiple values]'' OnEnter = demo_editor
   \<and> SetLicenseURLAction demo_editor [1, 2] (StartingValue demo_editor [1, 2])
         ''http://z'' OnCleared = demo_editor"
proof -
  have a: "stored_url demo_editor 1 = Some ''http://x''"
    by (simp add: demo_editor_def demo_metadata_def MD_AssetSourceURL_def GetValue_def stored_url_def)
  have b: "stored_url demo_editor 2 = Some ''http://y''"
    by (simp add: demo_editor_def demo_metadata_def MD_AssetSourceURL_def GetValue_def stored_url_def)
  have "(1 :: object_id) \<in> set [1, 2]" and "(2 :: object_id) \<in> set [1, 2]"
    and "\<not> FStringEq ''http://x'' ''http://y''"
    by (simp_all add: FStringEq_def Lower_def ToLower_def)
  from StartingValue_multiple_values [where WeakObjects = "[1, 2]" and TextCommitType = OnEnter
        and Val = "''[multiple values]''", OF this(1) this(2) a b this(3)]
    StartingValue_multiple_values [where WeakObjects = "[1, 2]" and TextCommitType = OnCleared
        and Val = "''http://z''", OF this(1) this(2) a b this(3)]
  show ?thesis by blast
qed

text \<open>
  The claim as the specification states it gives the text \<open>[multiple values]\<close> to every
  selection with differing URLs. The objects 1 and 13 carry \<open>http://x\<close> and
  \<open>HTTP://X\<close>, which differ, and the field starts with \<open>http://x\<close>.
\<close>

theorem StartingValue_multiple_values_counterexample:
  "stored_url demo_editor 1 = Some ''http://x'' \<and> stored_url demo_editor 13 = Some ''HTTP://X''
   \<and> StartingValue demo_editor [1, 13] = ''http://x''"
  by (simp add: StartingValue_def ScanSelection_def scan_object_def demo_editor_def
      demo_metadata_def FindMetaData_eq GetValue_def MD_AssetSourceURL_def stored_url_def
      FStringNe_def FStringEq_def Lower_def ToLower_def)

section \<open>The ranked list: helper lemmas\<close>

lemma usage_before_iff:
  "usage_before m A B \<longleftrightarrow>
     usage m A > usage m B \<or> (usage m A = usage m B \<and> FStringLess A B)"
  by (auto simp: usage_before_def Let_def)

lemma usage_before_trans:
  "usage_before m A B \<Longrightarrow> usage_before m B C \<Longrightarrow> usage_before m A C"
  by (auto simp: usage_before_iff FStringLess_def)

lemma usage_before_total:
  "Lower A \<noteq> Lower B \<Longrightarrow> usage_before m A B \<or> usage_before m B A"
  by (auto simp: usage_before_iff FStringLess_def)

lemma usage_before_asym: "usage_before m A B \<Longrightarrow> \<not> usage_before m B A"
  by (auto simp: usage_before_iff FStringLess_def)

lemma set_insert_by: "set (insert_by P x xs) = insert x (set xs)"
  by (induction xs) auto

lemma set_Sort: "set (Sort P xs) = set xs"
  by (induction xs) (auto simp: set_insert_by)

lemma distinct_insert_by: "distinct (insert_by P x xs) = (x \<notin> set xs \<and> distinct xs)"
  by (induction xs) (auto simp: set_insert_by)

lemma distinct_Sort: "distinct (Sort P xs) = distinct xs"
  by (induction xs) (auto simp: distinct_insert_by set_Sort)

lemma sorted_insert_by:
  assumes trans: "\<And>a b c. P a b \<Longrightarrow> P b c \<Longrightarrow> P a c"
    and total: "\<And>a b. a \<in> S \<Longrightarrow> b \<in> S \<Longrightarrow> a \<noteq> b \<Longrightarrow> P a b \<or> P b a"
  shows "sorted_wrt P xs \<Longrightarrow> x \<notin> set xs \<Longrightarrow> insert x (set xs) \<subseteq> S
           \<Longrightarrow> sorted_wrt P (insert_by P x xs)"
proof (induction xs)
  case Nil
  then show ?case by simp
next
  case (Cons y ys)
  show ?case
  proof (cases "P x y")
    case True
    then have "\<forall>z \<in> set ys. P x z" using Cons.prems(1) trans by auto
    then show ?thesis using True Cons.prems by simp
  next
    case False
    then have "P y x" using total [of x y] Cons.prems(2,3) by auto
    then show ?thesis using False Cons by (auto simp: set_insert_by)
  qed
qed

lemma sorted_Sort:
  assumes trans: "\<And>a b c. P a b \<Longrightarrow> P b c \<Longrightarrow> P a c"
    and total: "\<And>a b. a \<in> S \<Longrightarrow> b \<in> S \<Longrightarrow> a \<noteq> b \<Longrightarrow> P a b \<or> P b a"
  shows "distinct xs \<Longrightarrow> set xs \<subseteq> S \<Longrightarrow> sorted_wrt P (Sort P xs)"
proof (induction xs)
  case Nil
  then show ?case by simp
next
  case (Cons x xs)
  then have "sorted_wrt P (Sort P xs)" and "x \<notin> set (Sort P xs)"
    and "insert x (set (Sort P xs)) \<subseteq> S"
    by (simp_all add: set_Sort)
  then show ?case using sorted_insert_by [of P S, OF trans total] by simp
qed

lemma sorted_wrt_unique:
  assumes asym: "\<And>a b. P a b \<Longrightarrow> \<not> P b a"
  shows "sorted_wrt P xs \<Longrightarrow> sorted_wrt P ys \<Longrightarrow> set xs = set ys \<Longrightarrow> xs = ys"
proof (induction xs arbitrary: ys)
  case Nil
  then show ?case by simp
next
  case (Cons x xs)
  then obtain y ys' where ys: "ys = y # ys'" by (cases ys) auto
  have irr: "\<not> P a a" for a using asym by blast
  have xy: "x = y"
  proof (rule ccontr)
    assume ne: "x \<noteq> y"
    have "x \<in> set ys'" using Cons.prems(3) ys ne by auto
    then have "P y x" using Cons.prems(2) ys by simp
    moreover have "y \<in> set xs" using Cons.prems(3) ys ne by auto
    then have "P x y" using Cons.prems(1) by simp
    ultimately show False using asym by blast
  qed
  have "x \<notin> set xs" using Cons.prems(1) irr by auto
  moreover have "y \<notin> set ys'" using Cons.prems(2) ys irr by auto
  ultimately have "set xs = set ys'" using Cons.prems(3) ys xy by auto
  then have "xs = ys'" using Cons.IH [of ys'] Cons.prems(1,2) ys by simp
  then show ?case using xy ys by simp
qed

lemma folded_distinct_keys:
  assumes "distinct (map (\<lambda>e. Lower (fst e)) m)"
  shows "distinct (map fst m)"
    and "\<And>a b. a \<in> set (map fst m) \<Longrightarrow> b \<in> set (map fst m) \<Longrightarrow> a \<noteq> b \<Longrightarrow> Lower a \<noteq> Lower b"
proof -
  have eq: "map (\<lambda>e. Lower (fst e)) m = map Lower (map fst m)" by simp
  have d: "distinct (map Lower (map fst m))" using assms unfolding eq .
  have both: "distinct (map fst m) \<and> inj_on Lower (set (map fst m))"
    using d by (simp only: distinct_map)
  then show "distinct (map fst m)" by blast
  have "inj_on Lower (set (map fst m))" using both by blast
  then show "\<And>a b. a \<in> set (map fst m) \<Longrightarrow> b \<in> set (map fst m) \<Longrightarrow> a \<noteq> b \<Longrightarrow> Lower a \<noteq> Lower b"
    by (auto dest: inj_onD)
qed

lemma UniqueURLs_sorted:
  assumes d: "distinct (map (\<lambda>e. Lower (fst e)) m)"
  shows "sorted_wrt (usage_before m) (UniqueURLs m)"
proof -
  have "sorted_wrt (usage_before m) (Sort (usage_before m) (map fst m))"
  proof (rule sorted_Sort [where S = "set (map fst m)"])
    show "usage_before m a c" if "usage_before m a b" and "usage_before m b c" for a b c
      using that by (rule usage_before_trans)
    show "usage_before m a b \<or> usage_before m b a"
      if "a \<in> set (map fst m)" and "b \<in> set (map fst m)" and "a \<noteq> b" for a b
      using folded_distinct_keys(2) [OF d that] by (rule usage_before_total)
    show "distinct (map fst m)" using d by (rule folded_distinct_keys(1))
    show "set (map fst m) \<subseteq> set (map fst m)" by simp
  qed
  then show ?thesis by (simp add: UniqueURLs_def GenerateKeyArray_def)
qed

lemma UniqueURLs_set: "set (UniqueURLs m) = fst ` set m"
  by (simp add: UniqueURLs_def GenerateKeyArray_def set_Sort)

lemma UniqueURLs_distinct:
  "distinct (map (\<lambda>e. Lower (fst e)) m) \<Longrightarrow> distinct (UniqueURLs m)"
  using folded_distinct_keys(1) [of m]
  by (simp add: UniqueURLs_def GenerateKeyArray_def distinct_Sort)

lemma RankedList_set:
  assumes d: "distinct (map (\<lambda>e. Lower (fst e)) m)"
  shows "set (RankedList m) = set m"
proof (intro set_eqI iffI)
  fix e
  assume "e \<in> set (RankedList m)"
  then obtain k where k: "k \<in> fst ` set m" and e: "e = (k, usage m k)"
    by (auto simp: RankedList_def UniqueURLs_set)
  then obtain c where c: "(k, c) \<in> set m" by force
  then have "usage m k = c" using d by (rule usage_entry [rotated])
  then show "e \<in> set m" using c e by simp
next
  fix e
  assume mem: "e \<in> set m"
  obtain k c where e: "e = (k, c)" by (cases e)
  then have "usage m k = c" using d mem by (simp add: usage_entry)
  moreover have "k \<in> set (UniqueURLs m)" using mem e by (force simp: UniqueURLs_set)
  ultimately show "e \<in> set (RankedList m)" using e by (auto simp: RankedList_def)
qed

lemma usage_cong: "FStringEq k k' \<Longrightarrow> usage m k = usage m k'"
proof -
  assume "FStringEq k k'"
  then have "(\<lambda>(q, c :: nat). FStringEq q k) = (\<lambda>(q, c). FStringEq q k')"
    by (auto simp: fun_eq_iff FStringEq_def)
  then show ?thesis by (simp add: usage_def)
qed

lemma usage_by_set:
  assumes d: "distinct (map (\<lambda>e. Lower (fst e)) m)"
    and d': "distinct (map (\<lambda>e. Lower (fst e)) m')"
    and s: "set m' = set m"
  shows "usage m' k = usage m k"
proof (cases "find (\<lambda>(q, c). FStringEq q k) m")
  case None
  then have "\<not> (\<exists>(q, c) \<in> set m. FStringEq q k)" using find_key_None [of k m] by blast
  then have "\<not> (\<exists>(q, c) \<in> set m'. FStringEq q k)" using s by simp
  then have "find (\<lambda>(q, c). FStringEq q k) m' = None" using find_key_None [of k m'] by blast
  then show ?thesis using None by (simp add: usage_def)
next
  case (Some e)
  obtain q c where e: "e = (q, c)" by (cases e)
  have mem: "(q, c) \<in> set m" using Some e by (auto simp: find_Some_iff in_set_conv_nth)
  have qk: "FStringEq q k" using Some e find_key_Some by blast
  have "usage m q = c" using d mem by (rule usage_entry)
  moreover have "usage m' q = c" using d' mem s by (simp add: usage_entry)
  moreover have "usage m q = usage m k" and "usage m' q = usage m' k"
    using qk by (rule usage_cong)+
  ultimately show ?thesis by simp
qed

lemma RankedList_order_independent:
  assumes d: "distinct (map (\<lambda>e. Lower (fst e)) m)"
    and d': "distinct (map (\<lambda>e. Lower (fst e)) m')"
    and s: "set m' = set m"
  shows "RankedList m' = RankedList m"
proof -
  have us: "usage m' = usage m" using usage_by_set [OF d d' s] by (simp add: fun_eq_iff)
  then have ub: "usage_before m' = usage_before m" by (simp add: usage_before_def fun_eq_iff)
  have "set (UniqueURLs m') = set (UniqueURLs m)" using s by (simp add: UniqueURLs_set)
  moreover have "sorted_wrt (usage_before m) (UniqueURLs m')"
    using UniqueURLs_sorted [OF d'] ub by simp
  moreover have "sorted_wrt (usage_before m) (UniqueURLs m)"
    using d by (rule UniqueURLs_sorted)
  ultimately have "UniqueURLs m' = UniqueURLs m"
    using sorted_wrt_unique [of "usage_before m"] usage_before_asym by blast
  then show ?thesis using us by (simp add: RankedList_def)
qed

section \<open>RankedList\<close>

text \<open>
  Claim C4. A tally is a map whose keys are found ignoring case, so no two of its keys are
  equal ignoring case. For every tally the ranked list is ordered by descending count,
  entries with equal counts by the order of \<^verbatim>\<open>FString\<close>, which is the lexicographic
  order of the URLs with upper case letters read as lower case ones; it holds exactly the
  entries of the tally, each URL once; and it is the same list for every tally with the
  same entries, whatever the order in which the map hands out its keys. The order holds
  for every pair of positions, so the list is the only arrangement of the tally that is
  ordered in this way.
\<close>

theorem RankedList_ordered:
  assumes "distinct (map (\<lambda>e. Lower (fst e)) m)"
  shows "sorted_wrt (\<lambda>(A, CountA) (B, CountB).
                       CountA > CountB \<or> (CountA = CountB \<and> FStringLess A B))
           (RankedList m)
         \<and> set (RankedList m) = set m
         \<and> distinct (map fst (RankedList m))
         \<and> (distinct (map (\<lambda>e. Lower (fst e)) m') \<and> set m' = set m
              \<longrightarrow> RankedList m' = RankedList m)"
proof -
  have "sorted_wrt (\<lambda>A B. usage m A > usage m B \<or> (usage m A = usage m B \<and> FStringLess A B))
          (UniqueURLs m)"
    using UniqueURLs_sorted [OF assms] by (simp add: usage_before_iff [abs_def])
  then have srt: "sorted_wrt (\<lambda>(A, CountA) (B, CountB).
                       CountA > CountB \<or> (CountA = CountB \<and> FStringLess A B))
           (RankedList m)"
    by (simp add: RankedList_def sorted_wrt_map)
  have fs: "map fst (RankedList m) = UniqueURLs m"
    by (simp add: RankedList_def comp_def)
  show ?thesis
    using srt RankedList_set [OF assms] fs UniqueURLs_distinct [OF assms]
      RankedList_order_independent [OF assms, of m']
    by simp
qed

theorem RankedList_ordered_witness:
  "RankedList [(''http://b'', 1), (''http://a'', 1), (''http://c'', 3), (''HTTP://D'', 1)]
       = [(''http://c'', 3), (''http://a'', 1), (''http://b'', 1), (''HTTP://D'', 1)]
   \<and> RankedList [(''HTTP://D'', 1), (''http://c'', 3), (''http://a'', 1), (''http://b'', 1)]
       = [(''http://c'', 3), (''http://a'', 1), (''http://b'', 1), (''HTTP://D'', 1)]"
proof -
  let ?m = "[(''http://b'', 1 :: nat), (''http://a'', 1), (''http://c'', 3), (''HTTP://D'', 1)]"
  let ?m' = "[(''HTTP://D'', 1 :: nat), (''http://c'', 3), (''http://a'', 1), (''http://b'', 1)]"
  have d: "distinct (map (\<lambda>e. Lower (fst e)) ?m)" by (simp add: Lower_def ToLower_def)
  have d': "distinct (map (\<lambda>e. Lower (fst e)) ?m')" by (simp add: Lower_def ToLower_def)
  have e: "set ?m' = set ?m" by auto
  have r: "RankedList ?m = [(''http://c'', 3), (''http://a'', 1), (''http://b'', 1), (''HTTP://D'', 1)]"
    by (simp add: RankedList_def UniqueURLs_def GenerateKeyArray_def usage_before_def usage_def
        FStringLess_def FStringEq_def Lower_def ToLower_def)
  show ?thesis using d' e r RankedList_ordered [OF d, of ?m'] by simp
qed

text \<open>
  The claim as the specification states it breaks ties by the order of the bytes. In that
  order \<open>http://B\<close> comes before \<open>http://a\<close>; the ranked list of the two with equal
  counts has \<open>http://a\<close> first.
\<close>

theorem RankedList_ordered_counterexample:
  "''http://B'' < ''http://a''
   \<and> RankedList [(''http://B'', 1), (''http://a'', 1)] = [(''http://a'', 1), (''http://B'', 1)]"
  by (simp add: RankedList_def UniqueURLs_def GenerateKeyArray_def usage_before_def usage_def
      FStringLess_def FStringEq_def Lower_def ToLower_def)

section \<open>Writing the source URL: helper lemmas\<close>

lemma set_source_url_cases:
  "set_source_url v h a =
     (case (Objects h a, Outermost h a) of
        (Some _, Some p) \<Rightarrow>
          h\<lparr>Dirty := insert p (Dirty h),
            PackageMetaData := (PackageMetaData h)(p \<mapsto>
              (\<lambda>obj key. if obj = a \<and> key = MD_AssetSourceURL then (if v = [] then None else Some v)
                 else (case PackageMetaData h p of None \<Rightarrow> None | Some m \<Rightarrow> m obj key)))\<rparr>
      | _ \<Rightarrow> h)"
  by (auto simp: set_source_url_def WeakGet_def Modify_def GetMetaData_def SetValue_def
                 RemoveValue_def fun_eq_iff dom_def
           split: option.splits intro!: editor.equality)

lemma set_source_url_Objects [simp]: "Objects (set_source_url v h a) = Objects h"
  by (simp add: set_source_url_cases split: option.splits)

lemma set_source_url_Outermost [simp]: "Outermost (set_source_url v h a) = Outermost h"
  by (simp add: set_source_url_cases split: option.splits)

lemma set_source_url_skip:
  "Objects h a = None \<or> Outermost h a = None \<Longrightarrow> set_source_url v h a = h"
  by (auto simp: set_source_url_cases split: option.splits)

lemma set_source_url_comm:
  "set_source_url v (set_source_url v h a) b = set_source_url v (set_source_url v h b) a"
proof (cases "Objects h a = None \<or> Outermost h a = None")
  case True
  then have "Objects (set_source_url v h b) a = None \<or> Outermost (set_source_url v h b) a = None"
    by simp
  then show ?thesis using True by (simp add: set_source_url_skip)
next
  case a: False
  show ?thesis
  proof (cases "Objects h b = None \<or> Outermost h b = None")
    case True
    then have "Objects (set_source_url v h a) b = None \<or> Outermost (set_source_url v h a) b = None"
      by simp
    then show ?thesis using True by (simp add: set_source_url_skip)
  next
    case b: False
    from a obtain x p where xa: "Objects h a = Some x" "Outermost h a = Some p" by auto
    from b obtain y q where yb: "Objects h b = Some y" "Outermost h b = Some q" by auto
    show ?thesis
    proof (cases "p = q")
      case True
      then show ?thesis using xa yb
        by (cases h) (auto simp: set_source_url_cases fun_eq_iff intro!: editor.equality)
    next
      case False
      then show ?thesis using xa yb
        by (cases h) (auto simp: set_source_url_cases fun_eq_iff intro!: editor.equality)
    qed
  qed
qed

lemma set_source_url_idem:
  "set_source_url v (set_source_url v h a) a = set_source_url v h a"
  by (cases h)
     (auto simp: set_source_url_cases fun_eq_iff split: option.splits intro!: editor.equality)

lemma foldl_push:
  assumes comm: "\<And>s x y. f (f s x) y = f (f s y) x"
  shows "foldl f (f s x) xs = f (foldl f s xs) x"
proof (induction xs arbitrary: s)
  case Nil
  then show ?case by simp
next
  case (Cons y xs)
  have "foldl f (f s x) (y # xs) = foldl f (f (f s y) x) xs" by (simp add: comm)
  also have "\<dots> = f (foldl f (f s y) xs) x" by (rule Cons.IH)
  finally show ?case by simp
qed

lemma foldl_twice:
  assumes comm: "\<And>s x y. f (f s x) y = f (f s y) x"
    and idem: "\<And>s x. f (f s x) x = f s x"
  shows "foldl f (foldl f s xs) xs = foldl f s xs"
proof (induction xs arbitrary: s)
  case Nil
  then show ?case by simp
next
  case (Cons x xs)
  have "foldl f (foldl f s (x # xs)) (x # xs) = foldl f (f (foldl f (f s x) xs) x) xs" by simp
  also have "f (foldl f (f s x) xs) x = foldl f (f s x) xs"
    by (simp add: foldl_push [of f, OF comm] idem)
  also have "foldl f (foldl f (f s x) xs) xs = foldl f (f s x) xs" by (rule Cons.IH)
  finally show ?case by simp
qed

lemma SetAnnotation_twice:
  "SetAnnotation (SetAnnotation h W v) W v = SetAnnotation h W v"
  unfolding SetAnnotation_def
  by (rule foldl_twice) (simp_all add: set_source_url_comm set_source_url_idem)

lemma SetAnnotation_Objects [simp]: "Objects (SetAnnotation h W v) = Objects h"
  unfolding SetAnnotation_def by (induction W arbitrary: h) simp_all

lemma SetAnnotation_Outermost [simp]: "Outermost (SetAnnotation h W v) = Outermost h"
  unfolding SetAnnotation_def by (induction W arbitrary: h) simp_all

lemma annotation_set_source_url:
  "annotation (set_source_url v h b) a =
     (if a = b \<and> b \<in> dom (Objects h) \<and> has_package h b then (if v = [] then None else Some v)
      else annotation h a)"
  by (auto simp: annotation_def set_source_url_cases has_package_def split: option.splits)

lemma has_package_set_source_url [simp]: "has_package (set_source_url v h b) a = has_package h a"
  by (simp add: has_package_def)

lemma annotation_SetAnnotation:
  "annotation (SetAnnotation h W v) a =
     (if a \<in> set W \<and> a \<in> dom (Objects h) \<and> has_package h a
      then (if v = [] then None else Some v) else annotation h a)"
proof (induction W rule: rev_induct)
  case Nil
  then show ?case by (simp add: SetAnnotation_def)
next
  case (snoc b W)
  have "SetAnnotation h (W @ [b]) v = set_source_url v (SetAnnotation h W v) b"
    by (simp add: SetAnnotation_def)
  moreover have "has_package (SetAnnotation h W v) b = has_package h b"
    by (simp add: has_package_def)
  ultimately show ?case using snoc by (auto simp: annotation_set_source_url)
qed

lemma stored_url_annotation:
  "stored_url h a = (case annotation h a of None \<Rightarrow> None | Some v \<Rightarrow> if v = [] then None else Some v)"
  by (auto simp: stored_url_def annotation_def GetValue_def split: option.splits)

section \<open>SetAnnotation\<close>

text \<open>
  Claim C5. After the loop has written the committed text, every selected object that is
  alive and has a package has no annotation when the text is empty, and the text as its
  annotation otherwise; the annotation of every other object is what it was. The lambda
  runs the loop when the commit is not a clearing one and the text differs, even ignoring
  case, from the starting value of the field; otherwise it leaves the editor as it is. The
  committed value is always a text: an absent value is the empty text, and after a commit
  of the empty text the objects written to have no stored URL.
\<close>

theorem SetAnnotation_each:
  "annotation (SetAnnotation h WeakObjects Val) Asset
     = (if Asset \<in> set WeakObjects \<and> Asset \<in> dom (Objects h) \<and> has_package h Asset
        then (if Val = [] then None else Some Val)
        else annotation h Asset)
   \<and> (TextCommitType \<noteq> OnCleared \<and> \<not> FStringEq Val Starting \<longrightarrow>
        SetLicenseURLAction h WeakObjects Starting Val TextCommitType
          = SetAnnotation h WeakObjects Val)
   \<and> (TextCommitType = OnCleared \<or> FStringEq Val Starting \<longrightarrow>
        SetLicenseURLAction h WeakObjects Starting Val TextCommitType = h)
   \<and> (Asset \<in> set WeakObjects \<and> Asset \<in> dom (Objects h) \<and> has_package h Asset \<longrightarrow>
        stored_url (SetAnnotation h WeakObjects []) Asset = None)"
proof -
  have a: "annotation (SetAnnotation h WeakObjects Val) Asset
     = (if Asset \<in> set WeakObjects \<and> Asset \<in> dom (Objects h) \<and> has_package h Asset
        then (if Val = [] then None else Some Val)
        else annotation h Asset)"
    by (rule annotation_SetAnnotation)
  have b: "TextCommitType \<noteq> OnCleared \<and> \<not> FStringEq Val Starting \<longrightarrow>
        SetLicenseURLAction h WeakObjects Starting Val TextCommitType
          = SetAnnotation h WeakObjects Val"
    by (simp add: SetLicenseURLAction_def FStringNe_def)
  have b': "TextCommitType = OnCleared \<or> FStringEq Val Starting \<longrightarrow>
        SetLicenseURLAction h WeakObjects Starting Val TextCommitType = h"
    by (auto simp: SetLicenseURLAction_def FStringNe_def)
  have c: "Asset \<in> set WeakObjects \<and> Asset \<in> dom (Objects h) \<and> has_package h Asset \<longrightarrow>
        stored_url (SetAnnotation h WeakObjects []) Asset = None"
    by (simp add: stored_url_annotation annotation_SetAnnotation)
  show ?thesis using a b b' c by blast
qed

theorem SetAnnotation_each_witness:
  "annotation (SetAnnotation demo_editor [1, 3, 12] ''http://z'') 1 = Some ''http://z''
   \<and> annotation (SetAnnotation demo_editor [1, 3, 12] ''http://z'') 3 = Some ''http://z''
   \<and> annotation (SetAnnotation demo_editor [1, 3, 12] ''http://z'') 2 = Some ''http://y''
   \<and> annotation (SetAnnotation demo_editor [1, 3, 12] []) 1 = None
   \<and> SetLicenseURLAction demo_editor [1, 3] ''http://x'' ''http://z'' OnEnter
       = SetAnnotation demo_editor [1, 3] ''http://z''
   \<and> SetLicenseURLAction demo_editor [1, 3] ''http://x'' ''HTTP://X'' OnEnter = demo_editor"
  using SetAnnotation_each [of demo_editor "[1, 3, 12]" "''http://z''" 1 OnEnter "''http://x''"]
    SetAnnotation_each [of demo_editor "[1, 3, 12]" "''http://z''" 3 OnEnter "''http://x''"]
    SetAnnotation_each [of demo_editor "[1, 3, 12]" "''http://z''" 2 OnEnter "''http://x''"]
    SetAnnotation_each [of demo_editor "[1, 3, 12]" "[]" 1 OnEnter "''http://x''"]
    SetAnnotation_each [of demo_editor "[1, 3]" "''http://z''" 1 OnEnter "''http://x''"]
    SetAnnotation_each [of demo_editor "[1, 3]" "''HTTP://X''" 1 OnEnter "''http://x''"]
  by (simp add: demo_editor_def demo_metadata_def has_package_def annotation_def
      MD_AssetSourceURL_def FStringEq_def Lower_def ToLower_def)

text \<open>
  The claim as the specification states it, for every value, fails where the lambda does not
  run the loop: the text \<open>[multiple values]\<close> committed on the selection of the objects 1
  and 2 is the starting value of the field and is not written, and the text \<open>HTTP://X\<close>
  committed on object 1, whose field starts with \<open>http://x\<close>, is not written either.
\<close>

theorem SetAnnotation_each_counterexample:
  "annotation (SetLicenseURLAction demo_editor [1, 2] (StartingValue demo_editor [1, 2])
       ''[multiple values]'' OnEnter) 1 \<noteq> Some ''[multiple values]''
   \<and> annotation (SetLicenseURLAction demo_editor [1] (StartingValue demo_editor [1])
       ''HTTP://X'' OnEnter) 1 \<noteq> Some ''HTTP://X''"
  by (simp add: SetLicenseURLAction_def SetAnnotation_def set_source_url_def WeakGet_def
      StartingValue_def ScanSelection_def scan_object_def FindMetaData_eq GetValue_def
      annotation_def demo_editor_def demo_metadata_def MD_AssetSourceURL_def
      FStringNe_def FStringEq_def Lower_def ToLower_def Let_def)

text \<open>
  Claim C6. Writing the same text twice in a row leaves the editor, and so the annotation
  of every object, as the first writing left it; this holds for the loop and for the
  lambda around it.
\<close>

theorem SetAnnotation_idempotent:
  "SetAnnotation (SetAnnotation h WeakObjects Val) WeakObjects Val = SetAnnotation h WeakObjects Val
   \<and> SetLicenseURLAction (SetLicenseURLAction h WeakObjects Starting Val TextCommitType)
         WeakObjects Starting Val TextCommitType
       = SetLicenseURLAction h WeakObjects Starting Val TextCommitType"
  by (simp add: SetLicenseURLAction_def SetAnnotation_twice)

theorem SetAnnotation_idempotent_witness:
  "SetAnnotation (SetAnnotation demo_editor [1, 3, 5, 1] ''http://z'') [1, 3, 5, 1] ''http://z''
     = SetAnnotation demo_editor [1, 3, 5, 1] ''http://z''
   \<and> annotation (SetAnnotation (SetAnnotation demo_editor [1, 3, 5, 1] ''http://z'')
         [1, 3, 5, 1] ''http://z'') 3 = Some ''http://z''"
  using SetAnnotation_idempotent [of demo_editor "[1, 3, 5, 1]" "''http://z''" "[]" OnEnter]
    annotation_SetAnnotation [of demo_editor "[1, 3, 5, 1]" "''http://z''" 3]
  by (simp add: demo_editor_def has_package_def)

section \<open>The license actions: helper lemmas\<close>

lemma collect_url_cases:
  "collect_url h s p =
     (case Objects h p of
        Some (UJamAssetLicense url) \<Rightarrow> if url \<noteq> [] then TSet_Add s url else s
      | _ \<Rightarrow> s)"
  by (auto simp: collect_url_def CastJamAssetLicense_def WeakGet_def
           split: option.splits UObject.splits)

lemma Collect_Nil: "CollectAssetSourceURLs h [] = []"
  by (simp add: CollectAssetSourceURLs_def)

lemma Collect_snoc:
  "CollectAssetSourceURLs h (W @ [p]) = collect_url h (CollectAssetSourceURLs h W) p"
  by (simp add: CollectAssetSourceURLs_def)

lemma replace_same_class:
  "map Lower (map (\<lambda>y. if FStringEq y x then x else y) s) = map Lower s"
  by (induction s) (auto simp: FStringEq_def)

lemma Lower_TSet_Add:
  "map Lower (TSet_Add s x)
     = (if Lower x \<in> set (map Lower s) then map Lower s else map Lower s @ [Lower x])"
proof -
  have "(\<exists>y \<in> set s. FStringEq y x) \<longleftrightarrow> Lower x \<in> set (map Lower s)"
  proof
    assume "\<exists>y \<in> set s. FStringEq y x"
    then obtain y where y: "y \<in> set s" "Lower x = Lower y" by (auto simp: FStringEq_def)
    then show "Lower x \<in> set (map Lower s)" by (metis imageI list.set_map)
  next
    assume "Lower x \<in> set (map Lower s)"
    then obtain y where "y \<in> set s" "Lower x = Lower y" by auto
    then show "\<exists>y \<in> set s. FStringEq y x" by (auto simp: FStringEq_def)
  qed
  then show ?thesis by (simp add: TSet_Add_def replace_same_class del: map_map)
qed

lemma set_TSet_Add: "set (TSet_Add s x) = insert x {y \<in> set s. \<not> FStringEq y x}"
  by (auto simp: TSet_Add_def)

lemma Collect_distinct: "distinct (map Lower (CollectAssetSourceURLs h W))"
proof (induction W rule: rev_induct)
  case Nil
  then show ?case by (simp add: Collect_Nil)
next
  case (snoc p W)
  have "distinct (map Lower (TSet_Add (CollectAssetSourceURLs h W) x))" for x
    unfolding Lower_TSet_Add using snoc by simp
  then show ?case using snoc
    by (simp add: Collect_snoc collect_url_cases split: option.splits UObject.splits)
qed

lemma Collect_step_set:
  "set (collect_url h s p)
     = (case Objects h p of
          Some (UJamAssetLicense url) \<Rightarrow>
            if url \<noteq> [] then insert url {y \<in> set s. \<not> FStringEq y url} else set s
        | _ \<Rightarrow> set s)"
  by (simp add: collect_url_cases set_TSet_Add split: option.splits UObject.splits)

lemma Collect_match:
  "(\<exists>x \<in> set (CollectAssetSourceURLs h W). FStringEq x URL)
   \<longleftrightarrow> (\<exists>p \<in> set W. \<exists>v. Objects h p = Some (UJamAssetLicense v) \<and> v \<noteq> [] \<and> FStringEq v URL)"
proof (induction W rule: rev_induct)
  case Nil
  then show ?case by (simp add: Collect_Nil)
next
  case (snoc p W)
  let ?old = "CollectAssetSourceURLs h W"
  let ?lic = "\<lambda>p v. Objects h p = Some (UJamAssetLicense v) \<and> v \<noteq> []"
  show ?case
  proof (cases "\<exists>u. ?lic p u")
    case False
    then have "set (collect_url h ?old p) = set ?old"
      by (auto simp: Collect_step_set split: option.splits UObject.splits)
    then show ?thesis using snoc False by (auto simp: Collect_snoc)
  next
    case True
    then obtain u where u: "?lic p u" by blast
    then have new: "set (collect_url h ?old p) = insert u {y \<in> set ?old. \<not> FStringEq y u}"
      by (simp add: Collect_step_set)
    have only: "\<not> FStringEq u URL \<Longrightarrow> \<not> (\<exists>v. ?lic p v \<and> FStringEq v URL)"
      using u by auto
    show ?thesis
    proof (cases "FStringEq u URL")
      case True
      then show ?thesis using new u by (auto simp: Collect_snoc)
    next
      case False
      have "(\<exists>x \<in> set (collect_url h ?old p). FStringEq x URL)
          \<longleftrightarrow> (\<exists>x \<in> set ?old. FStringEq x URL)"
      proof
        assume "\<exists>x \<in> set (collect_url h ?old p). FStringEq x URL"
        then show "\<exists>x \<in> set ?old. FStringEq x URL" unfolding new using False by auto
      next
        assume "\<exists>x \<in> set ?old. FStringEq x URL"
        then obtain x where x: "x \<in> set ?old" "FStringEq x URL" by blast
        then have "\<not> FStringEq x u" using False by (auto simp: FStringEq_def)
        then show "\<exists>x \<in> set (collect_url h ?old p). FStringEq x URL"
          unfolding new using x by auto
      qed
      moreover have "(\<exists>q \<in> set (W @ [p]). \<exists>v. ?lic q v \<and> FStringEq v URL)
          \<longleftrightarrow> (\<exists>q \<in> set W. \<exists>v. ?lic q v \<and> FStringEq v URL)"
        using False only by auto
      ultimately show ?thesis using snoc by (simp add: Collect_snoc)
    qed
  qed
qed

lemma Collect_last:
  "set (CollectAssetSourceURLs h W)
   = {x. x \<noteq> [] \<and> (\<exists>before p after. W = before @ p # after
         \<and> Objects h p = Some (UJamAssetLicense x)
         \<and> (\<forall>q \<in> set after. \<forall>v. Objects h q = Some (UJamAssetLicense v) \<longrightarrow> v \<noteq> []
               \<longrightarrow> \<not> FStringEq v x))}"
proof (induction W rule: rev_induct)
  case Nil
  then show ?case by (simp add: Collect_Nil)
next
  case (snoc c W)
  let ?old = "CollectAssetSourceURLs h W"
  let ?last = "\<lambda>W x. \<exists>before p after. W = before @ p # after
         \<and> Objects h p = Some (UJamAssetLicense x)
         \<and> (\<forall>q \<in> set after. \<forall>v. Objects h q = Some (UJamAssetLicense v) \<longrightarrow> v \<noteq> []
               \<longrightarrow> \<not> FStringEq v x)"
  let ?clash = "\<lambda>x. \<exists>v. Objects h c = Some (UJamAssetLicense v) \<and> v \<noteq> [] \<and> FStringEq v x"
  have split: "?last (W @ [c]) x \<longleftrightarrow>
      Objects h c = Some (UJamAssetLicense x) \<or> (?last W x \<and> \<not> ?clash x)" for x
  proof
    assume "?last (W @ [c]) x"
    then obtain before p after where sp: "W @ [c] = before @ p # after"
      and u: "Objects h p = Some (UJamAssetLicense x)"
      and f: "\<forall>q \<in> set after. \<forall>v. Objects h q = Some (UJamAssetLicense v) \<longrightarrow> v \<noteq> []
               \<longrightarrow> \<not> FStringEq v x" by blast
    from snoc_eq_split [THEN iffD1, OF sp]
    have "(after = [] \<and> W = before \<and> c = p)
        \<or> (\<exists>after'. after = after' @ [c] \<and> W = before @ p # after')" .
    then show "Objects h c = Some (UJamAssetLicense x) \<or> (?last W x \<and> \<not> ?clash x)"
    proof (elim disjE conjE exE)
      assume "c = p"
      then show ?thesis using u by simp
    next
      fix after'
      assume a: "after = after' @ [c]" and w: "W = before @ p # after'"
      have "\<forall>q \<in> set after'. \<forall>v. Objects h q = Some (UJamAssetLicense v) \<longrightarrow> v \<noteq> []
               \<longrightarrow> \<not> FStringEq v x" using f a by simp
      then have "?last W x" using w u by blast
      moreover have "\<not> ?clash x" using f a by auto
      ultimately show ?thesis by blast
    qed
  next
    assume "Objects h c = Some (UJamAssetLicense x) \<or> (?last W x \<and> \<not> ?clash x)"
    then show "?last (W @ [c]) x"
    proof
      assume "Objects h c = Some (UJamAssetLicense x)"
      then have "W @ [c] = W @ c # []" "Objects h c = Some (UJamAssetLicense x)"
        "\<forall>q \<in> set []. \<forall>v. Objects h q = Some (UJamAssetLicense v) \<longrightarrow> v \<noteq> []
               \<longrightarrow> \<not> FStringEq v x" by simp_all
      then show ?thesis by blast
    next
      assume as: "?last W x \<and> \<not> ?clash x"
      then obtain before p after where w: "W = before @ p # after"
        and u: "Objects h p = Some (UJamAssetLicense x)"
        and f: "\<forall>q \<in> set after. \<forall>v. Objects h q = Some (UJamAssetLicense v) \<longrightarrow> v \<noteq> []
               \<longrightarrow> \<not> FStringEq v x" by blast
      have "W @ [c] = before @ p # (after @ [c])" using w by simp
      moreover have "\<forall>q \<in> set (after @ [c]). \<forall>v. Objects h q = Some (UJamAssetLicense v)
               \<longrightarrow> v \<noteq> [] \<longrightarrow> \<not> FStringEq v x" using f as by auto
      ultimately show ?thesis using u by blast
    qed
  qed
  have mem: "x \<in> set (CollectAssetSourceURLs h (W @ [c]))
      \<longleftrightarrow> x \<noteq> [] \<and> ?last (W @ [c]) x" for x
  proof (cases "\<exists>u. Objects h c = Some (UJamAssetLicense u) \<and> u \<noteq> []")
    case False
    then have "set (collect_url h ?old c) = set ?old"
      by (auto simp: Collect_step_set split: option.splits UObject.splits)
    moreover have "\<not> ?clash x" using False by blast
    moreover have "x \<noteq> [] \<Longrightarrow> Objects h c \<noteq> Some (UJamAssetLicense x)" using False by blast
    ultimately show ?thesis unfolding split Collect_snoc using snoc.IH by auto
  next
    case True
    then obtain u where u: "Objects h c = Some (UJamAssetLicense u)" "u \<noteq> []" by blast
    then have new: "set (collect_url h ?old c) = insert u {y \<in> set ?old. \<not> FStringEq y u}"
      by (simp add: Collect_step_set)
    have cl: "?clash x \<longleftrightarrow> FStringEq x u" using u FStringEq_sym by auto
    have own: "Objects h c = Some (UJamAssetLicense x) \<longleftrightarrow> x = u" using u by auto
    show ?thesis unfolding split Collect_snoc new cl own using snoc.IH u(2) by auto
  qed
  show ?case by (rule set_eqI) (simp only: mem mem_Collect_eq)
qed

lemma count_class:
  "distinct (map Lower xs) \<Longrightarrow>
   length (filter (\<lambda>x. FStringEq x u) xs) = (if \<exists>x \<in> set xs. FStringEq x u then 1 else 0)"
proof (induction xs)
  case Nil
  then show ?case by simp
next
  case (Cons x xs)
  show ?case
  proof (cases "FStringEq x u")
    case True
    have nin: "Lower x \<notin> Lower ` set xs" using Cons.prems by simp
    have "\<not> (\<exists>y \<in> set xs. FStringEq y u)"
    proof
      assume "\<exists>y \<in> set xs. FStringEq y u"
      then obtain y where y: "y \<in> set xs" "FStringEq y u" by blast
      then have "Lower x = Lower y" using True by (simp add: FStringEq_def)
      then show False using nin y(1) by (metis imageI)
    qed
    then show ?thesis using True Cons by simp
  next
    case False
    then show ?thesis using Cons by simp
  qed
qed

section \<open>ViewAssetSourceAction\<close>

text \<open>
  Claim C10. The set that gathers the URLs finds an element ignoring case and puts a
  string added again in the place of the one it held. No two of the URLs launched by the
  action are equal ignoring case; they are the URLs, not empty, of the selected license
  assets, each in the spelling of the last selected license that carries it: a URL is
  launched exactly when it is the non-empty URL of a selected license after which no
  selected license has a non-empty URL equal to it ignoring case. Objects of another
  class, stale pointers and licenses with an empty URL add nothing. For every URL, the
  number of launched URLs equal to it ignoring case is 1 when a selected license carries
  such a URL, and 0 otherwise.
\<close>

theorem ViewAssetSourceAction_once:
  "distinct (map Lower (ViewAssetSourceAction h WeakObjects))
   \<and> distinct (ViewAssetSourceAction h WeakObjects)
   \<and> set (ViewAssetSourceAction h WeakObjects)
       = {x. x \<noteq> [] \<and> (\<exists>before p after. WeakObjects = before @ p # after
             \<and> Objects h p = Some (UJamAssetLicense x)
             \<and> (\<forall>q \<in> set after. \<forall>v. Objects h q = Some (UJamAssetLicense v) \<longrightarrow> v \<noteq> []
                   \<longrightarrow> \<not> FStringEq v x))}
   \<and> length (filter (\<lambda>x. FStringEq x URL) (ViewAssetSourceAction h WeakObjects))
       = (if \<exists>p \<in> set WeakObjects. \<exists>v. Objects h p = Some (UJamAssetLicense v) \<and> v \<noteq> []
                \<and> FStringEq v URL
          then 1 else 0)"
proof -
  have d: "distinct (map Lower (ViewAssetSourceAction h WeakObjects))"
    unfolding ViewAssetSourceAction_def by (rule Collect_distinct)
  then have d': "distinct (ViewAssetSourceAction h WeakObjects)"
    by (simp only: distinct_map)
  have s: "set (ViewAssetSourceAction h WeakObjects)
       = {x. x \<noteq> [] \<and> (\<exists>before p after. WeakObjects = before @ p # after
             \<and> Objects h p = Some (UJamAssetLicense x)
             \<and> (\<forall>q \<in> set after. \<forall>v. Objects h q = Some (UJamAssetLicense v) \<longrightarrow> v \<noteq> []
                   \<longrightarrow> \<not> FStringEq v x))}"
    unfolding ViewAssetSourceAction_def by (rule Collect_last)
  have "length (filter (\<lambda>x. FStringEq x URL) (ViewAssetSourceAction h WeakObjects))
       = (if \<exists>x \<in> set (ViewAssetSourceAction h WeakObjects). FStringEq x URL then 1 else 0)"
    using d by (rule count_class)
  then have c: "length (filter (\<lambda>x. FStringEq x URL) (ViewAssetSourceAction h WeakObjects))
       = (if \<exists>p \<in> set WeakObjects. \<exists>v. Objects h p = Some (UJamAssetLicense v) \<and> v \<noteq> []
                \<and> FStringEq v URL
          then 1 else 0)"
    unfolding ViewAssetSourceAction_def Collect_match .
  show ?thesis using d d' s c by blast
qed

theorem ViewAssetSourceAction_once_witness:
  "ViewAssetSourceAction demo_editor [7, 1, 8, 11, 12, 9, 16] = [''HTTP://X'', ''http://y'']
   \<and> length (filter (\<lambda>x. FStringEq x ''http://x'')
         (ViewAssetSourceAction demo_editor [7, 1, 8, 11, 12, 9, 16])) = 1
   \<and> length (filter (\<lambda>x. FStringEq x ''http://z'')
         (ViewAssetSourceAction demo_editor [7, 1, 8, 11, 12, 9, 16])) = 0"
proof -
  have "\<exists>p \<in> set [7, 1, 8, 11, 12, 9, 16]. \<exists>v. Objects demo_editor p = Some (UJamAssetLicense v)
          \<and> v \<noteq> [] \<and> FStringEq v ''http://x''"
    by (simp add: demo_editor_def)
  then have one: "length (filter (\<lambda>x. FStringEq x ''http://x'')
         (ViewAssetSourceAction demo_editor [7, 1, 8, 11, 12, 9, 16])) = 1"
    using ViewAssetSourceAction_once [of demo_editor "[7, 1, 8, 11, 12, 9, 16]" "''http://x''"]
    by simp
  have "\<not> (\<exists>p \<in> set [7, 1, 8, 11, 12, 9, 16]. \<exists>v. Objects demo_editor p = Some (UJamAssetLicense v)
          \<and> v \<noteq> [] \<and> FStringEq v ''http://z'')"
    by (simp add: demo_editor_def FStringEq_def Lower_def ToLower_def)
  then have none: "length (filter (\<lambda>x. FStringEq x ''http://z'')
         (ViewAssetSourceAction demo_editor [7, 1, 8, 11, 12, 9, 16])) = 0"
    using ViewAssetSourceAction_once [of demo_editor "[7, 1, 8, 11, 12, 9, 16]" "''http://z''"]
    by simp
  have "ViewAssetSourceAction demo_editor [7, 1, 8, 11, 12, 9, 16] = [''HTTP://X'', ''http://y'']"
    by (simp add: ViewAssetSourceAction_def CollectAssetSourceURLs_def collect_url_def
        CastJamAssetLicense_def WeakGet_def TSet_Add_def demo_editor_def
        FStringEq_def Lower_def ToLower_def)
  then show ?thesis using one none by simp
qed

text \<open>
  The claim as the specification states it has every distinct URL launched once. The
  licenses 7 and 16 carry \<open>http://x\<close> and \<open>HTTP://X\<close>, two URLs, and the action
  launches \<open>HTTP://X\<close> alone.
\<close>

theorem ViewAssetSourceAction_once_counterexample:
  "Objects demo_editor 7 = Some (UJamAssetLicense ''http://x'')
   \<and> Objects demo_editor 16 = Some (UJamAssetLicense ''HTTP://X'')
   \<and> ViewAssetSourceAction demo_editor [7, 16] = [''HTTP://X'']"
  by (simp add: ViewAssetSourceAction_def CollectAssetSourceURLs_def collect_url_def
      CastJamAssetLicense_def WeakGet_def TSet_Add_def demo_editor_def
      FStringEq_def Lower_def ToLower_def)

section \<open>FindAssetsBySharedURL\<close>

text \<open>
  Claim C7. The set of URLs is searched ignoring case. The assets found are exactly the
  entries of the registry whose value under the tag \<^verbatim>\<open>AssetSourceURL\<close> is equal, ignoring
  case, to a URL of the set, in the order of the registry; nothing else is made equal: in
  the sample registry a trailing slash and another scheme each make a different URL. For
  the action on a selection, these are the entries whose tag value is equal, ignoring
  case, to the non-empty URL of a selected license asset, and the content browser is left
  alone when there is none.
\<close>

theorem FindAssetsBySharedURL_exact:
  "FindAssetsBySharedURL AssetRegistry AssetSourceURLs
     = filter (\<lambda>AssetData. \<exists>TestURL. TagsAndValues AssetData MD_AssetSourceURL = Some TestURL
                 \<and> (\<exists>URL \<in> set AssetSourceURLs. FStringEq URL TestURL)) AssetRegistry
   \<and> SelectRelatedAssetsAction h WeakObjects AssetRegistry
     = (let MatchingAssetList =
              filter (\<lambda>AssetData. \<exists>TestURL. TagsAndValues AssetData MD_AssetSourceURL = Some TestURL
                 \<and> (\<exists>p \<in> set WeakObjects. \<exists>URL. Objects h p = Some (UJamAssetLicense URL)
                       \<and> URL \<noteq> [] \<and> FStringEq URL TestURL)) AssetRegistry
        in if MatchingAssetList = [] then None else Some MatchingAssetList)"
proof -
  have f: "FindAssetsBySharedURL AssetRegistry urls
     = filter (\<lambda>AssetData. \<exists>TestURL. TagsAndValues AssetData MD_AssetSourceURL = Some TestURL
                 \<and> (\<exists>URL \<in> set urls. FStringEq URL TestURL)) AssetRegistry" for urls
    unfolding FindAssetsBySharedURL_def GetAssetsByTags_def GetTagValue_def TSet_Contains_def
      Let_def filter_filter
    by (rule filter_cong) (auto split: option.splits)
  have "FindAssetsBySharedURL AssetRegistry (CollectAssetSourceURLs h WeakObjects)
     = filter (\<lambda>AssetData. \<exists>TestURL. TagsAndValues AssetData MD_AssetSourceURL = Some TestURL
                 \<and> (\<exists>p \<in> set WeakObjects. \<exists>URL. Objects h p = Some (UJamAssetLicense URL)
                       \<and> URL \<noteq> [] \<and> FStringEq URL TestURL)) AssetRegistry"
    unfolding f Collect_match ..
  then have "SelectRelatedAssetsAction h WeakObjects AssetRegistry
     = (let MatchingAssetList =
              filter (\<lambda>AssetData. \<exists>TestURL. TagsAndValues AssetData MD_AssetSourceURL = Some TestURL
                 \<and> (\<exists>p \<in> set WeakObjects. \<exists>URL. Objects h p = Some (UJamAssetLicense URL)
                       \<and> URL \<noteq> [] \<and> FStringEq URL TestURL)) AssetRegistry
        in if MatchingAssetList = [] then None else Some MatchingAssetList)"
    by (simp add: SelectRelatedAssetsAction_def Let_def)
  then show ?thesis using f [of AssetSourceURLs] by blast
qed

theorem FindAssetsBySharedURL_exact_witness:
  "map ObjectPath (FindAssetsBySharedURL demo_registry [''http://x''])
     = [''/Game/A'', ''/Game/C'', ''/Game/F'']
   \<and> map ObjectPath (FindAssetsBySharedURL demo_registry [''https://x'', ''http://x/''])
       = [''/Game/B'', ''/Game/D'']
   \<and> map_option (map ObjectPath) (SelectRelatedAssetsAction demo_editor [7, 1, 11] demo_registry)
       = Some [''/Game/A'', ''/Game/C'', ''/Game/F'']
   \<and> SelectRelatedAssetsAction demo_editor [9, 11] demo_registry = None"
  using FindAssetsBySharedURL_exact [of demo_registry "[''http://x'']" demo_editor "[7, 1, 11]"]
    FindAssetsBySharedURL_exact [of demo_registry "[''https://x'', ''http://x/'']" demo_editor
      "[9, 11]"]
  by (simp add: demo_registry_def demo_editor_def MD_AssetSourceURL_def
      FStringEq_def Lower_def ToLower_def)

text \<open>
  The claim as the specification states it matches URLs by an exact comparison that
  keeps case apart. The search for \<open>http://x\<close> also finds the entry \<open>/Game/C\<close>, which
  is tagged \<open>HTTP://X\<close>.
\<close>

theorem FindAssetsBySharedURL_exact_counterexample:
  "map (\<lambda>AssetData. (ObjectPath AssetData, TagsAndValues AssetData MD_AssetSourceURL))
       (FindAssetsBySharedURL demo_registry [''http://x''])
     = [(''/Game/A'', Some ''http://x''), (''/Game/C'', Some ''HTTP://X''),
        (''/Game/F'', Some ''http://x'')]"
  by (simp add: FindAssetsBySharedURL_def GetAssetsByTags_def GetTagValue_def TSet_Contains_def
      demo_registry_def MD_AssetSourceURL_def FStringEq_def Lower_def ToLower_def)

end
